theory Spec2Isabelle
  imports Complex_Main "HOL-Library.Word" "HOL-Library.Code_Target_Nat"
begin

section \<open>Dense gain cache (kaminpar/refinement/gain_cache.h)\<close>

text \<open>
  The partitioned graph the gain cache reads: \<open>n\<close> nodes, \<open>k\<close> blocks, for every node the
  list of its half-edges \<open>(e, v)\<close> in iteration order, the weight of every half-edge and
  the block of every node.  \<open>EdgeWeight\<close> is declared outside this header; it is a signed
  machine integer of some width \<open>w\<close> (32 bits in the default build), a \<open>'w word\<close> here:
  sums and differences wrap around, and \<open>sint\<close> reads the signed value.
\<close>

record (overloaded) 'w partitioned_graph =
  pg_n :: nat
  pg_k :: nat
  pg_neighbors :: "nat \<Rightarrow> (nat \<times> nat) list"
  pg_edge_weight :: "nat \<Rightarrow> 'w word"
  pg_block :: "nat list"

definition set_block :: "'w::len partitioned_graph \<Rightarrow> nat \<Rightarrow> nat \<Rightarrow> 'w partitioned_graph" where
  "set_block g u b = g\<lparr>pg_block := (pg_block g)[u := b]\<rparr>"

text \<open>
  The cache itself: \<open>_k\<close>, \<open>_n\<close>, the flat \<open>_gain_cache\<close> array of \<open>_n * _k\<close> entries and
  the \<open>_weighted_degrees\<close> array.  \<open>NodeID\<close> and \<open>BlockID\<close> are
  declared outside this header; they are taken as the 32-bit unsigned integers of the
  default build, so the products \<open>_n * _k\<close> and \<open>node * _k + b\<close> are taken modulo
  \<open>2 ^ 32\<close>.
\<close>

record (overloaded) 'w dense_gain_cache =
  gc_k :: nat
  gc_n :: nat
  gain_cache :: "'w word list"
  weighted_degrees :: "'w word list"

text \<open>The constructor allocates both arrays without initialising them; \<open>junk\<close> stands
  for whatever the memory holds.\<close>

definition DenseGainCache :: "nat \<Rightarrow> nat \<Rightarrow> (nat \<Rightarrow> 'w::len word) \<Rightarrow> 'w dense_gain_cache" where
  "DenseGainCache k n junk =
     \<lparr>gc_k = k, gc_n = n,
      gain_cache = map junk [0..<(n * k) mod 2 ^ 32],
      weighted_degrees = map junk [0..<n]\<rparr>"

definition index :: "'w::len dense_gain_cache \<Rightarrow> nat \<Rightarrow> nat \<Rightarrow> nat" where
  "index gc node b = (node * gc_k gc + b) mod 2 ^ 32"

definition weighted_degree_to :: "'w::len dense_gain_cache \<Rightarrow> nat \<Rightarrow> nat \<Rightarrow> 'w word" where
  "weighted_degree_to gc node b = gain_cache gc ! index gc node b"

definition gain :: "'w::len dense_gain_cache \<Rightarrow> nat \<Rightarrow> nat \<Rightarrow> nat \<Rightarrow> 'w word" where
  "gain gc node block_from block_to =
     weighted_degree_to gc node block_to - weighted_degree_to gc node block_from"

definition is_border_node :: "'w::len dense_gain_cache \<Rightarrow> nat \<Rightarrow> nat \<Rightarrow> bool" where
  "is_border_node gc node b \<longleftrightarrow> weighted_degrees gc ! node \<noteq> weighted_degree_to gc node b"

text \<open>\<open>xs[i] += d\<close> on an array of \<open>EdgeWeight\<close>s; the sum wraps around, as
  \<open>__atomic_fetch_add\<close> and \<open>__atomic_fetch_sub\<close> do.\<close>

definition add_at :: "'w::len word list \<Rightarrow> nat \<Rightarrow> 'w word \<Rightarrow> 'w word list" where
  "add_at xs i d = xs[i := xs ! i + d]"

text \<open>One iteration of the loop of \<open>move\<close>: subtract the edge weight from the neighbour's
  entry for \<open>block_from\<close>, then add it to the entry for \<open>block_to\<close>.\<close>

definition move_edge ::
  "'w::len partitioned_graph \<Rightarrow> nat \<Rightarrow> nat \<Rightarrow> 'w dense_gain_cache \<Rightarrow> nat \<times> nat \<Rightarrow>
     'w dense_gain_cache" where
  "move_edge g block_from block_to gc ev =
     (let weight = pg_edge_weight g (fst ev);
          v = snd ev;
          c1 = add_at (gain_cache gc) (index gc v block_from) (- weight);
          c2 = add_at c1 (index gc v block_to) weight
      in gc\<lparr>gain_cache := c2\<rparr>)"

definition move ::
  "'w::len partitioned_graph \<Rightarrow> 'w dense_gain_cache \<Rightarrow> nat \<Rightarrow> nat \<Rightarrow> nat \<Rightarrow>
     'w dense_gain_cache" where
  "move g gc node block_from block_to =
     foldl (move_edge g block_from block_to) gc (pg_neighbors g node)"

definition reset :: "'w::len dense_gain_cache \<Rightarrow> 'w dense_gain_cache" where
  "reset gc = gc\<lparr>gain_cache := replicate (length (gain_cache gc)) 0\<rparr>"

text \<open>One iteration of the loop of \<open>recompute_node\<close>.\<close>

definition recompute_edge ::
  "'w::len partitioned_graph \<Rightarrow> nat \<Rightarrow> 'w dense_gain_cache \<Rightarrow> nat \<times> nat \<Rightarrow>
     'w dense_gain_cache" where
  "recompute_edge g u gc ev =
     (let block_v = pg_block g ! (snd ev);
          weight = pg_edge_weight g (fst ev)
      in gc\<lparr>gain_cache := add_at (gain_cache gc) (index gc u block_v) weight,
            weighted_degrees := add_at (weighted_degrees gc) u weight\<rparr>)"

definition recompute_node ::
  "'w::len partitioned_graph \<Rightarrow> 'w dense_gain_cache \<Rightarrow> nat \<Rightarrow> 'w dense_gain_cache" where
  "recompute_node g gc u =
     foldl (recompute_edge g u)
       (gc\<lparr>weighted_degrees := (weighted_degrees gc)[u := 0]\<rparr>)
       (pg_neighbors g u)"

definition recompute_all ::
  "'w::len partitioned_graph \<Rightarrow> 'w dense_gain_cache \<Rightarrow> 'w dense_gain_cache" where
  "recompute_all g gc = foldl (recompute_node g) gc [0..<pg_n g]"

text \<open>\<open>initialize\<close> behind its assertion, and the assertion
  \<open>KASSERT(_n * _k >= p_graph.n() * p_graph.k(), "gain cache is too small")\<close>, both
  products being 32-bit products.\<close>

definition initialize ::
  "'w::len partitioned_graph \<Rightarrow> 'w dense_gain_cache \<Rightarrow> 'w dense_gain_cache" where
  "initialize g gc = recompute_all g (reset gc)"

definition too_small :: "'w::len dense_gain_cache \<Rightarrow> 'w partitioned_graph \<Rightarrow> bool" where
  "too_small gc g \<longleftrightarrow> (gc_n gc * gc_k gc) mod 2 ^ 32 < (pg_n g * pg_k g) mod 2 ^ 32"

text \<open>The path 0 - 1 - 2 - 3 with unit weights and the partition \<open>[0, 1, 1, 0]\<close>:
  half-edge \<open>2 * i\<close> leads from \<open>i\<close> to \<open>i + 1\<close>, half-edge \<open>2 * i + 1\<close> back.  Edge
  weights have 32 bits.\<close>

definition path4 :: "32 partitioned_graph" where
  "path4 =
     \<lparr>pg_n = 4, pg_k = 2,
      pg_neighbors = (\<lambda>u. if u = 0 then [(0, 1)]
                          else if u = 1 then [(1, 0), (2, 2)]
                          else if u = 2 then [(3, 1), (4, 3)]
                          else if u = 3 then [(5, 2)] else []),
      pg_edge_weight = (\<lambda>e. 1),
      pg_block = [0, 1, 1, 0]\<rparr>"

definition path4_cache :: "32 dense_gain_cache" where
  "path4_cache = initialize path4 (DenseGainCache 2 4 (\<lambda>i. 77))"

text \<open>Two nodes joined by two parallel edges of weight \<open>2 ^ 30\<close> each, node 0 in block
  0 and node 1 in block 1: every weight fits into 32 bits, the weighted degree
  \<open>2 ^ 31\<close> does not.\<close>

definition heavy2 :: "32 partitioned_graph" where
  "heavy2 =
     \<lparr>pg_n = 2, pg_k = 2,
      pg_neighbors = (\<lambda>u. if u = 0 then [(0, 1), (1, 1)]
                          else if u = 1 then [(2, 0), (3, 0)] else []),
      pg_edge_weight = (\<lambda>e. 1073741824),
      pg_block = [0, 1]\<rparr>"

text \<open>A graph of \<open>2 ^ 20\<close> nodes without edges, all in block 0 of \<open>2 ^ 12\<close> blocks.\<close>

definition wide_graph :: "32 partitioned_graph" where
  "wide_graph =
     \<lparr>pg_n = 1048576, pg_k = 4096,
      pg_neighbors = (\<lambda>u. []),
      pg_edge_weight = (\<lambda>e. 1),
      pg_block = replicate 1048576 0\<rparr>"

text \<open>
  What the cache is specified to hold, computed in \<open>EdgeWeight\<close> as
  \<open>check_cached_gain_for_node\<close> does: \<open>conn g u b\<close> is the total weight of the
  half-edges of \<open>u\<close> whose head is currently in block \<open>b\<close>, \<open>deg g u\<close> the weighted
  degree of \<open>u\<close>, and \<open>weight_between g u v\<close> the total weight of the half-edges from
  \<open>u\<close> to \<open>v\<close>.
\<close>

definition conn :: "'w::len partitioned_graph \<Rightarrow> nat \<Rightarrow> nat \<Rightarrow> 'w word" where
  "conn g u b =
     sum_list (map (\<lambda>ev. if pg_block g ! snd ev = b then pg_edge_weight g (fst ev) else 0)
                   (pg_neighbors g u))"

definition deg :: "'w::len partitioned_graph \<Rightarrow> nat \<Rightarrow> 'w word" where
  "deg g u = sum_list (map (\<lambda>ev. pg_edge_weight g (fst ev)) (pg_neighbors g u))"

definition weight_between :: "'w::len partitioned_graph \<Rightarrow> nat \<Rightarrow> nat \<Rightarrow> 'w word" where
  "weight_between g u v =
     sum_list (map (\<lambda>ev. if snd ev = v then pg_edge_weight g (fst ev) else 0)
                   (pg_neighbors g u))"

text \<open>The same totals as integers, every weight read as a signed number.\<close>

definition total_weight_to :: "'w::len partitioned_graph \<Rightarrow> nat \<Rightarrow> nat \<Rightarrow> int" where
  "total_weight_to g u b =
     sum_list (map (\<lambda>ev. if pg_block g ! snd ev = b then sint (pg_edge_weight g (fst ev)) else 0)
                   (pg_neighbors g u))"

definition total_weight :: "'w::len partitioned_graph \<Rightarrow> nat \<Rightarrow> int" where
  "total_weight g u = sum_list (map (\<lambda>ev. sint (pg_edge_weight g (fst ev))) (pg_neighbors g u))"

text \<open>The edge weights of \<open>u\<close> add up, in absolute value, to a number that
  \<open>EdgeWeight\<close> holds; for weights that are not negative this says that the weighted
  degree of \<open>u\<close> is an \<open>EdgeWeight\<close>.\<close>

definition weights_in_range :: "'w::len partitioned_graph \<Rightarrow> nat \<Rightarrow> bool" where
  "weights_in_range g u \<longleftrightarrow>
     sum_list (map (\<lambda>ev. \<bar>sint (pg_edge_weight g (fst ev))\<bar>) (pg_neighbors g u))
       < 2 ^ (LENGTH('w) - 1)"

definition wf_graph :: "'w::len partitioned_graph \<Rightarrow> bool" where
  "wf_graph g \<longleftrightarrow>
     length (pg_block g) = pg_n g \<and>
     (\<forall>u<pg_n g. pg_block g ! u < pg_k g) \<and>
     (\<forall>u<pg_n g. \<forall>ev\<in>set (pg_neighbors g u). snd ev < pg_n g) \<and>
     (\<forall>u<pg_n g. \<forall>v<pg_n g. weight_between g u v = weight_between g v u)"

text \<open>A cache that was constructed for at least the nodes and the blocks of the graph,
  with a number of entries that 32 bits can hold.\<close>

definition fits :: "'w::len dense_gain_cache \<Rightarrow> 'w partitioned_graph \<Rightarrow> bool" where
  "fits gc g \<longleftrightarrow>
     pg_k g \<le> gc_k gc \<and> pg_n g \<le> gc_n gc \<and> gc_n gc * gc_k gc < 2 ^ 32 \<and>
     length (gain_cache gc) = gc_n gc * gc_k gc \<and> length (weighted_degrees gc) = gc_n gc"

definition apply_move ::
  "'w::len partitioned_graph \<times> 'w dense_gain_cache \<Rightarrow> nat \<times> nat \<Rightarrow>
     'w partitioned_graph \<times> 'w dense_gain_cache" where
  "apply_move s m =
     (let g = fst s; gc = snd s; u = fst m; b = snd m
      in (set_block g u b, move g gc u (pg_block g ! u) b))"

definition valid_moves :: "'w::len partitioned_graph \<Rightarrow> (nat \<times> nat) list \<Rightarrow> bool" where
  "valid_moves g ms \<longleftrightarrow> (\<forall>m\<in>set ms. fst m < pg_n g \<and> snd m < pg_k g)"

definition consistent :: "'w::len partitioned_graph \<Rightarrow> 'w dense_gain_cache \<Rightarrow> bool" where
  "consistent g gc \<longleftrightarrow>
     (\<forall>u<pg_n g. weighted_degrees gc ! u = deg g u \<and>
        (\<forall>b<gc_k gc. weighted_degree_to gc u b = conn g u b))"

text \<open>A batch of \<open>xs[i] += d\<close> updates, applied in order.\<close>

abbreviation (input) add_all :: "'w::len word list \<Rightarrow> (nat \<times> 'w word) list \<Rightarrow> 'w word list" where
  "add_all xs ups \<equiv> foldl (\<lambda>xs p. add_at xs (fst p) (snd p)) xs ups"

section \<open>FastResetArray (kaminpar-common/datastructures/concurrent_fast_reset_array.h)\<close>

text \<open>
  The array \<open>_data\<close> and the list \<open>_used_entries\<close>.  The value-initialised \<open>Value()\<close> of
  the template parameter is the argument \<open>dv\<close> of the operations that mention it.
\<close>

record 'v fast_reset_array =
  fra_data :: "'v list"
  fra_used_entries :: "nat list"

definition FastResetArray :: "'v \<Rightarrow> nat \<Rightarrow> 'v fast_reset_array" where
  "FastResetArray dv cap = \<lparr>fra_data = replicate cap dv, fra_used_entries = []\<rparr>"

definition capacity :: "'v fast_reset_array \<Rightarrow> nat" where
  "capacity a = length (fra_data a)"

text \<open>The non-const \<open>operator[]\<close>: an entry that still holds \<open>Value()\<close> is recorded as
  used before the reference to it is handed out.\<close>

definition subscript :: "'v \<Rightarrow> 'v fast_reset_array \<Rightarrow> nat \<Rightarrow> 'v fast_reset_array" where
  "subscript dv a pos =
     (if fra_data a ! pos = dv then a\<lparr>fra_used_entries := fra_used_entries a @ [pos]\<rparr> else a)"

definition get :: "'v fast_reset_array \<Rightarrow> nat \<Rightarrow> 'v" where
  "get a pos = fra_data a ! pos"

definition set_entry :: "'v \<Rightarrow> 'v fast_reset_array \<Rightarrow> nat \<Rightarrow> 'v \<Rightarrow> 'v fast_reset_array" where
  "set_entry dv a pos new_value =
     (let a' = subscript dv a pos in a'\<lparr>fra_data := (fra_data a')[pos := new_value]\<rparr>)"

definition exists :: "'v \<Rightarrow> 'v fast_reset_array \<Rightarrow> nat \<Rightarrow> bool" where
  "exists dv a pos \<longleftrightarrow> fra_data a ! pos = dv"

definition clear :: "'v \<Rightarrow> 'v fast_reset_array \<Rightarrow> 'v fast_reset_array" where
  "clear dv a =
     \<lparr>fra_data = foldl (\<lambda>d pos. d[pos := dv]) (fra_data a) (fra_used_entries a),
      fra_used_entries = []\<rparr>"

section \<open>Label propagation refiner (kaminpar/refinement/parallel_label_propagation_refiner.h)\<close>

text \<open>
  The fields of \<open>ClusterSelectionState\<close> that \<open>accept_cluster\<close> reads.  Weights and gains
  are signed integers.  \<open>random_bool\<close> is the bit that \<open>local_rand.random_bool()\<close> returns
  if the evaluation gets as far as asking for it.
\<close>

record cluster_selection_state =
  u_weight :: int
  initial_cluster :: nat
  initial_cluster_weight :: int
  best_cluster :: nat
  best_gain :: int
  best_cluster_weight :: int
  current_cluster :: nat
  current_gain :: int
  current_cluster_weight :: int
  random_bool :: bool

text \<open>\<open>max_cluster_weight\<close> is the block weight cap \<open>p_ctx.max_block_weight\<close>.\<close>

definition accept_cluster :: "(nat \<Rightarrow> int) \<Rightarrow> cluster_selection_state \<Rightarrow> bool" where
  "accept_cluster max_cluster_weight state =
     (let current_max_weight = max_cluster_weight (current_cluster state);
          best_overload = best_cluster_weight state - max_cluster_weight (best_cluster state);
          current_overload = current_cluster_weight state - current_max_weight;
          initial_overload =
            initial_cluster_weight state - max_cluster_weight (initial_cluster state)
      in (current_gain state > best_gain state \<or>
          (current_gain state = best_gain state \<and>
           (current_overload < best_overload \<or>
            (current_overload = best_overload \<and> random_bool state)))) \<and>
         (current_cluster_weight state + u_weight state < current_max_weight \<or>
          current_overload < initial_overload \<or>
          current_cluster state = initial_cluster state))"

text \<open>The first conjunct of \<open>accept_cluster\<close>: the candidate is preferred by gain (ties
  by overload, then by the random bit).\<close>

definition preferred :: "(nat \<Rightarrow> int) \<Rightarrow> cluster_selection_state \<Rightarrow> bool" where
  "preferred max_cluster_weight state \<longleftrightarrow>
     current_gain state > best_gain state \<or>
     (current_gain state = best_gain state \<and>
      (current_cluster_weight state - max_cluster_weight (current_cluster state)
         < best_cluster_weight state - max_cluster_weight (best_cluster state) \<or>
       (current_cluster_weight state - max_cluster_weight (current_cluster state)
          = best_cluster_weight state - max_cluster_weight (best_cluster state) \<and>
        random_bool state)))"

text \<open>Node of weight 1 in block 0 (weight 2), candidate block 1 of weight 3, every cap 4:
  the move fills block 1 exactly to its cap.\<close>

definition to_the_cap :: cluster_selection_state where
  "to_the_cap =
     \<lparr>u_weight = 1, initial_cluster = 0, initial_cluster_weight = 2,
      best_cluster = 0, best_gain = 0, best_cluster_weight = 2,
      current_cluster = 1, current_gain = 1, current_cluster_weight = 3,
      random_bool = False\<rparr>"

text \<open>Node of weight 1 in the overloaded block 0 (weight 9), candidate block 1 of weight
  4, every cap 4: the move overloads block 1, by less than block 0 was overloaded.\<close>

definition repair_move :: cluster_selection_state where
  "repair_move =
     \<lparr>u_weight = 1, initial_cluster = 0, initial_cluster_weight = 9,
      best_cluster = 0, best_gain = 0, best_cluster_weight = 9,
      current_cluster = 1, current_gain = 1, current_cluster_weight = 4,
      random_bool = False\<rparr>"

text \<open>Node of weight 5 in block 0 (weight 9), candidate block 1 of weight 7, every cap
  10: no block is overloaded, and the move brings block 1 to weight 12.\<close>

definition slack_move :: cluster_selection_state where
  "slack_move =
     \<lparr>u_weight = 5, initial_cluster = 0, initial_cluster_weight = 9,
      best_cluster = 0, best_gain = 0, best_cluster_weight = 9,
      current_cluster = 1, current_gain = 1, current_cluster_weight = 7,
      random_bool = False\<rparr>"

section \<open>JET refiner: the filter phase (kaminpar-dist/refinement/jet/jet_refiner.cc)\<close>

text \<open>
  What one process sees in \<open>filter_bad_moves\<close>: its \<open>n\<close> owned nodes have the local
  identifiers \<open>0 ..< n\<close>, its ghost nodes the local identifiers \<open>n ..< total_n\<close>
  (\<open>synchronize_ghost_node_move_candidates\<close> iterates over exactly this range); adjacency
  lists hold local identifiers; \<open>_gains_and_targets\<close> has an entry for every owned and
  every ghost node, \<open>_locked\<close> one for every owned node.
\<close>

record jet_view =
  jv_n :: nat
  jv_total_n :: nat
  jv_neighbors :: "nat \<Rightarrow> (nat \<times> nat) list"
  jv_edge_weight :: "nat \<Rightarrow> int"
  jv_block :: "nat list"
  gains_and_targets :: "(int \<times> nat) list"
  locked :: "bool list"

text \<open>The condition under which \<open>u\<close> takes the target of its neighbour \<open>v\<close>, instead of
  the current block of \<open>v\<close>, as the projected block of \<open>v\<close>.\<close>

definition treats_as_moved :: "jet_view \<Rightarrow> nat \<Rightarrow> nat \<Rightarrow> bool" where
  "treats_as_moved s u v =
     (let gain_u = fst (gains_and_targets s ! u);
          gain_v = fst (gains_and_targets s ! v)
      in gain_v > gain_u \<or> (gain_v = gain_u \<and> v < u))"

definition projected_block :: "jet_view \<Rightarrow> nat \<Rightarrow> nat \<Rightarrow> nat" where
  "projected_block s u v =
     (if treats_as_moved s u v then snd (gains_and_targets s ! v) else jv_block s ! v)"

text \<open>One iteration of the loop over the neighbours of \<open>u\<close>.\<close>

definition project_edge :: "jet_view \<Rightarrow> nat \<Rightarrow> int \<Rightarrow> nat \<times> nat \<Rightarrow> int" where
  "project_edge s u projected_gain ev =
     (let w_e = jv_edge_weight s (fst ev);
          projected_b_v = projected_block s u (snd ev)
      in if projected_b_v = snd (gains_and_targets s ! u) then projected_gain + w_e
         else if projected_b_v = jv_block s ! u then projected_gain - w_e
         else projected_gain)"

text \<open>The body of \<open>filter_bad_moves\<close> for the owned node \<open>u\<close>: the new value of
  \<open>_locked[u]\<close>.\<close>

definition filter_node :: "jet_view \<Rightarrow> nat \<Rightarrow> bool" where
  "filter_node s u =
     (let from_u = jv_block s ! u;
          to_u = snd (gains_and_targets s ! u)
      in if from_u = to_u then False
         else foldl (project_edge s u) 0 (jv_neighbors s u) \<ge> 0)"

definition filter_bad_moves :: "jet_view \<Rightarrow> jet_view" where
  "filter_bad_moves s = s\<lparr>locked := map (filter_node s) [0..<jv_n s]\<rparr>"

text \<open>
  Two processes, one edge of weight 1 between node \<open>a\<close> (owned by process 0, block 0)
  and node \<open>b\<close> (owned by process 1, block 1).  Each process numbers its own node 0 and
  the ghost of the other node 1.  Both nodes propose to move to the other block with
  gain 1, and the proposals have been exchanged.
\<close>

definition view_of_pe0 :: jet_view where
  "view_of_pe0 =
     \<lparr>jv_n = 1, jv_total_n = 2,
      jv_neighbors = (\<lambda>u. if u = 0 then [(0, 1)] else []),
      jv_edge_weight = (\<lambda>e. 1),
      jv_block = [0, 1],
      gains_and_targets = [(1, 1), (1, 0)],
      locked = [False]\<rparr>"

definition view_of_pe1 :: jet_view where
  "view_of_pe1 =
     \<lparr>jv_n = 1, jv_total_n = 2,
      jv_neighbors = (\<lambda>u. if u = 0 then [(0, 1)] else []),
      jv_edge_weight = (\<lambda>e. 1),
      jv_block = [1, 0],
      gains_and_targets = [(1, 0), (1, 1)],
      locked = [False]\<rparr>"

text \<open>The same two nodes on one process: \<open>a\<close> is node 0, \<open>b\<close> is node 1.\<close>

definition view_shared :: jet_view where
  "view_shared =
     \<lparr>jv_n = 2, jv_total_n = 2,
      jv_neighbors = (\<lambda>u. if u = 0 then [(0, 1)] else if u = 1 then [(1, 0)] else []),
      jv_edge_weight = (\<lambda>e. 1),
      jv_block = [0, 1],
      gains_and_targets = [(1, 1), (1, 0)],
      locked = [False, False]\<rparr>"

section \<open>JET refiner: the pass loop of \<open>refine\<close> (kaminpar-dist/refinement/jet/jet_refiner.cc)\<close>

text \<open>
  The doubles of the comparison in \<open>refine\<close>: IEEE 754 binary64 with rounding to
  nearest, ties to even.  \<open>Finite m e\<close> is the number \<open>m * 2 ^ e\<close>, \<open>Infinity neg\<close> is
  \<open>-inf\<close> when \<open>neg\<close> holds and \<open>+inf\<close> otherwise.  The two zeros are one value here:
  none of the operations below tells them apart.
\<close>

datatype double = Finite int int | Infinity bool | NaN

text \<open>The number of binary digits of a positive integer.\<close>

function bit_length :: "int \<Rightarrow> int" where
  "bit_length a = (if a \<le> 0 then 0 else 1 + bit_length (a div 2))"
  by pat_completeness auto
termination
  by (relation "measure nat") auto

declare bit_length.simps [simp del]

text \<open>
  The double nearest to \<open>m * 2 ^ e\<close>: the magnitude keeps 53 binary digits and no digit
  below \<open>2 ^ - 1074\<close>; of the \<open>s\<close> digits that go, exactly a half is rounded to the even
  neighbour; a result of \<open>2 ^ 1024\<close> or more is an infinity.
\<close>

definition round_double :: "int \<Rightarrow> int \<Rightarrow> double" where
  "round_double m e =
     (let a = \<bar>m\<bar>;
          s = max (bit_length a - 53) (- 1074 - e);
          q = (if s \<le> 0 then a
               else let d = 2 ^ nat s; q = a div d; r = a mod d
                    in if 2 * r > d \<or> (2 * r = d \<and> odd q) then q + 1 else q);
          e' = (if s \<le> 0 then e else e + s)
      in if q \<noteq> 0 \<and> bit_length q + e' > 1024 then Infinity (m < 0)
         else Finite (if m < 0 then - q else q) e')"

text \<open>The conversion of an integer (an \<open>EdgeWeight\<close>) to \<open>double\<close>.\<close>

definition double_of_int :: "int \<Rightarrow> double" where
  "double_of_int i = round_double i 0"

text \<open>\<open>a - b\<close>, \<open>a * b\<close> and \<open>a > b\<close> on doubles.\<close>

fun dsub :: "double \<Rightarrow> double \<Rightarrow> double" where
  "dsub NaN b = NaN"
| "dsub a NaN = NaN"
| "dsub (Infinity s) (Infinity t) = (if s = t then NaN else Infinity s)"
| "dsub (Infinity s) (Finite n f) = Infinity s"
| "dsub (Finite m e) (Infinity t) = Infinity (\<not> t)"
| "dsub (Finite m e) (Finite n f) =
     (let g = min e f in round_double (m * 2 ^ nat (e - g) - n * 2 ^ nat (f - g)) g)"

fun dmul :: "double \<Rightarrow> double \<Rightarrow> double" where
  "dmul NaN b = NaN"
| "dmul a NaN = NaN"
| "dmul (Infinity s) (Infinity t) = Infinity (s \<noteq> t)"
| "dmul (Infinity s) (Finite n f) = (if n = 0 then NaN else Infinity (s \<noteq> (n < 0)))"
| "dmul (Finite m e) (Infinity t) = (if m = 0 then NaN else Infinity ((m < 0) \<noteq> t))"
| "dmul (Finite m e) (Finite n f) = round_double (m * n) (e + f)"

fun dgt :: "double \<Rightarrow> double \<Rightarrow> bool" where
  "dgt NaN b = False"
| "dgt a NaN = False"
| "dgt (Infinity s) (Infinity t) = (\<not> s \<and> t)"
| "dgt (Infinity s) (Finite n f) = (\<not> s)"
| "dgt (Finite m e) (Infinity t) = t"
| "dgt (Finite m e) (Finite n f) =
     (let g = min e f in m * 2 ^ nat (e - g) > n * 2 ^ nat (f - g))"

text \<open>
  The configuration values \<open>refine\<close> reads.  The two limits are C++ \<open>int\<close>s;
  \<open>fruitless_threshold\<close> is a \<open>double\<close>.
\<close>

record jet_refinement_context =
  num_iterations :: int
  num_fruitless_iterations :: int
  fruitless_threshold :: double

text \<open>\<open>std::numeric_limits<int>::max()\<close>.\<close>

definition int_max :: int where
  "int_max = 2147483647"

text \<open>
  Modelled from the spec: the class of \<open>_snapshooter\<close> is declared in
  \<open>kaminpar-dist/refinement/snapshooter.h\<close>, which is not among the sources.  The spec
  says of it: \<open>initialize()\<close> snapshots the partition; after every pass the partition is
  snapshot if its cut improved; on stop the refiner rolls back to the best snapshot.
\<close>

record 'p snapshooter =
  best_partition :: 'p
  best_partition_cut :: int

definition snapshooter_init :: "('p \<Rightarrow> int) \<Rightarrow> 'p \<Rightarrow> 'p snapshooter" where
  "snapshooter_init edge_cut p = \<lparr>best_partition = p, best_partition_cut = edge_cut p\<rparr>"

definition snapshooter_update :: "('p \<Rightarrow> int) \<Rightarrow> 'p snapshooter \<Rightarrow> 'p \<Rightarrow> 'p snapshooter" where
  "snapshooter_update edge_cut sn p =
     (if edge_cut p < best_partition_cut sn
      then \<lparr>best_partition = p, best_partition_cut = edge_cut p\<rparr> else sn)"

definition snapshooter_rollback :: "'p snapshooter \<Rightarrow> 'p" where
  "snapshooter_rollback sn = best_partition sn"

text \<open>The recorded cut is the cut of the recorded partition.\<close>

definition snapshot_ok :: "('p \<Rightarrow> int) \<Rightarrow> 'p snapshooter \<Rightarrow> bool" where
  "snapshot_ok edge_cut sn \<longleftrightarrow> best_partition_cut sn = edge_cut (best_partition sn)"

text \<open>
  The state the loop of \<open>refine\<close> works on: the partitioned graph, the snapshooter and
  the local variables \<open>best_cut\<close>, \<open>cur_iteration\<close> and \<open>cur_fruitless_iteration\<close>.
\<close>

record 'p refine_locals =
  p_graph :: 'p
  jet_snapshooter :: "'p snapshooter"
  best_cut :: int
  cur_iteration :: int
  cur_fruitless_iteration :: int

text \<open>
  The test \<open>best_cut - final_cut > (1.0 - fruitless_threshold) * best_cut\<close>: the
  difference of the two \<open>EdgeWeight\<close>s is converted to \<open>double\<close>, and so is \<open>best_cut\<close>
  before the multiplication.  Edge cuts are not negative, so their difference is an
  \<open>EdgeWeight\<close> and is taken in the integers.
\<close>

definition improved :: "jet_refinement_context \<Rightarrow> int \<Rightarrow> int \<Rightarrow> bool" where
  "improved ctx best final =
     dgt (double_of_int (best - final))
         (dmul (dsub (Finite 1 0) (fruitless_threshold ctx)) (double_of_int best))"

text \<open>
  One execution of the loop body.  \<open>edge_cut\<close> is \<open>metrics::edge_cut\<close>.  \<open>pass i\<close> is
  what \<open>find_moves\<close> up to \<open>_balancer->refine()\<close> do to the partition in the pass with
  number \<open>i\<close>; whatever else they depend on (locks, gains, messages of the other
  processes) is determined by the passes before, hence by \<open>i\<close>.
\<close>

definition loop_body ::
  "('p \<Rightarrow> int) \<Rightarrow> (int \<Rightarrow> 'p \<Rightarrow> 'p) \<Rightarrow> jet_refinement_context \<Rightarrow>
     'p refine_locals \<Rightarrow> 'p refine_locals" where
  "loop_body edge_cut pass ctx s =
     (let p = pass (cur_iteration s) (p_graph s);
          sn = snapshooter_update edge_cut (jet_snapshooter s) p;
          it = cur_iteration s + 1;
          fr = cur_fruitless_iteration s + 1;
          final_cut = edge_cut p
      in if improved ctx (best_cut s) final_cut
         then \<lparr>p_graph = p, jet_snapshooter = sn, best_cut = final_cut,
               cur_iteration = it, cur_fruitless_iteration = 0\<rparr>
         else \<lparr>p_graph = p, jet_snapshooter = sn, best_cut = best_cut s,
               cur_iteration = it, cur_fruitless_iteration = fr\<rparr>)"

text \<open>The condition of the \<open>do ... while\<close>.\<close>

definition continues :: "int \<Rightarrow> int \<Rightarrow> 'p refine_locals \<Rightarrow> bool" where
  "continues max_num_iterations max_num_fruitless_iterations s \<longleftrightarrow>
     cur_iteration s < max_num_iterations \<and>
     cur_fruitless_iteration s < max_num_fruitless_iterations"

function pass_loop ::
  "('p \<Rightarrow> int) \<Rightarrow> (int \<Rightarrow> 'p \<Rightarrow> 'p) \<Rightarrow> jet_refinement_context \<Rightarrow> int \<Rightarrow> int \<Rightarrow>
     'p refine_locals \<Rightarrow> 'p refine_locals" where
  "pass_loop edge_cut pass ctx max_it max_fr s =
     (if continues max_it max_fr (loop_body edge_cut pass ctx s)
      then pass_loop edge_cut pass ctx max_it max_fr (loop_body edge_cut pass ctx s)
      else loop_body edge_cut pass ctx s)"
  by pat_completeness auto
termination
  by (relation "measure (\<lambda>(edge_cut, pass, ctx, max_it, max_fr, s). nat (max_it - cur_iteration s))")
     (auto simp: continues_def loop_body_def Let_def split: if_splits)

declare pass_loop.simps [simp del]

definition max_num_fruitless_iterations :: "jet_refinement_context \<Rightarrow> int" where
  "max_num_fruitless_iterations ctx =
     (if num_fruitless_iterations ctx = 0 then int_max else num_fruitless_iterations ctx)"

definition max_num_iterations :: "jet_refinement_context \<Rightarrow> int" where
  "max_num_iterations ctx = (if num_iterations ctx = 0 then int_max else num_iterations ctx)"

text \<open>The locals of \<open>refine\<close> before the first pass and when the loop is left.\<close>

definition refine_entry :: "('p \<Rightarrow> int) \<Rightarrow> 'p \<Rightarrow> 'p snapshooter \<Rightarrow> 'p refine_locals" where
  "refine_entry edge_cut p sn =
     \<lparr>p_graph = p, jet_snapshooter = sn, best_cut = edge_cut p,
      cur_iteration = 0, cur_fruitless_iteration = 0\<rparr>"

definition refine_exit ::
  "('p \<Rightarrow> int) \<Rightarrow> (int \<Rightarrow> 'p \<Rightarrow> 'p) \<Rightarrow> jet_refinement_context \<Rightarrow> 'p \<Rightarrow> 'p snapshooter \<Rightarrow>
     'p refine_locals" where
  "refine_exit edge_cut pass ctx p sn =
     pass_loop edge_cut pass ctx (max_num_iterations ctx) (max_num_fruitless_iterations ctx)
       (refine_entry edge_cut p sn)"

text \<open>\<open>refine\<close>: the value it returns and the partition it leaves behind, which is the
  one the rollback restores.\<close>

definition refine ::
  "('p \<Rightarrow> int) \<Rightarrow> (int \<Rightarrow> 'p \<Rightarrow> 'p) \<Rightarrow> jet_refinement_context \<Rightarrow> 'p \<Rightarrow> 'p snapshooter \<Rightarrow>
     bool \<times> 'p" where
  "refine edge_cut pass ctx p sn =
     (let initial_cut = edge_cut p;
          s = refine_exit edge_cut pass ctx p sn
      in (initial_cut > best_cut s, snapshooter_rollback (jet_snapshooter s)))"

text \<open>The stopping rule in the words of the spec: stop when \<open>cur_iter \<ge> num_iterations\<close>
  or \<open>fruitless_iter \<ge> num_fruitless_iterations\<close>.\<close>

definition spec_stop :: "jet_refinement_context \<Rightarrow> 'p refine_locals \<Rightarrow> bool" where
  "spec_stop ctx s \<longleftrightarrow>
     cur_iteration s \<ge> num_iterations ctx \<or>
     cur_fruitless_iteration s \<ge> num_fruitless_iterations ctx"

text \<open>
  A run on two partitions, named 0 (cut 4) and 1 (cut 3): every pass produces partition 1.
\<close>

definition cut_4_3 :: "nat \<Rightarrow> int" where
  "cut_4_3 p = (if p = 0 then 4 else 3)"

definition to_partition_1 :: "int \<Rightarrow> nat \<Rightarrow> nat" where
  "to_partition_1 i p = 1"

definition one_pass_half :: jet_refinement_context where
  "one_pass_half =
     \<lparr>num_iterations = 1, num_fruitless_iterations = 1, fruitless_threshold = Finite 1 (- 1)\<rparr>"

definition one_pass_strict :: jet_refinement_context where
  "one_pass_strict =
     \<lparr>num_iterations = 1, num_fruitless_iterations = 1, fruitless_threshold = Finite 1 0\<rparr>"

text \<open>No limit on the number of passes (\<open>num_iterations = 0\<close>), two fruitless passes
  allowed.\<close>

definition unlimited_passes :: jet_refinement_context where
  "unlimited_passes =
     \<lparr>num_iterations = 0, num_fruitless_iterations = 2, fruitless_threshold = Finite 1 (- 1)\<rparr>"

section \<open>ConcurrentCircularVector (kaminpar-common/datastructures/concurrent_circular_vector.h)\<close>

text \<open>
  \<open>Size\<close> and \<open>Value\<close> are unsigned machine integers of any width: the ticket counter
  \<open>_counter\<close> is an \<open>'s word\<close> and wraps around, the buffer holds \<open>'v word\<close>s, and sums of
  values are sums modulo \<open>2 ^ LENGTH('v)\<close>.
\<close>

record (overloaded) ('s, 'v) concurrent_circular_vector =
  ccv_counter :: "'s word"
  ccv_buffer :: "'v word list"

text \<open>\<open>kLock = std::numeric_limits<Value>::max()\<close>, all bits set.\<close>

definition kLock :: "'v::len word" where
  "kLock = - 1"

text \<open>
  The constructor (its argument \<open>size\<close> is \<open>sz\<close> here) makes a buffer of \<open>size + 1\<close>
  value-initialised entries and fills all but the last one with \<open>kLock\<close>.  A \<open>Size\<close>
  narrower than \<open>int\<close> (32 bits) is promoted to \<open>int\<close> before the addition, so the sum
  does not wrap around; for any other \<open>Size\<close> the sum is computed in \<open>Size\<close> and the
  largest size gives 0.  Then the buffer is empty and \<open>_buffer.end() - 1\<close> lies before
  its beginning: there is no object.
\<close>

definition buffer_size :: "'s::len word \<Rightarrow> nat" where
  "buffer_size sz = (if LENGTH('s) < 32 then unat sz + 1 else unat (sz + 1))"

definition ConcurrentCircularVector ::
  "'s::len word \<Rightarrow> ('s, 'v::len) concurrent_circular_vector option" where
  "ConcurrentCircularVector sz =
     (if buffer_size sz = 0 then None
      else Some \<lparr>ccv_counter = 0,
                 ccv_buffer = replicate (buffer_size sz - 1) kLock @ [0]\<rparr>)"

definition next_ticket ::
  "('s::len, 'v::len) concurrent_circular_vector \<Rightarrow>
     's word \<times> ('s, 'v) concurrent_circular_vector" where
  "next_ticket c = (ccv_counter c, c\<lparr>ccv_counter := ccv_counter c + 1\<rparr>)"

text \<open>The two positions \<open>fetch_and_update\<close> computes from a ticket.\<close>

definition pos_of :: "('s::len, 'v::len) concurrent_circular_vector \<Rightarrow> 's word \<Rightarrow> nat" where
  "pos_of c entry = unat entry mod length (ccv_buffer c)"

definition prev_pos_of :: "('s::len, 'v::len) concurrent_circular_vector \<Rightarrow> 's word \<Rightarrow> nat" where
  "prev_pos_of c entry =
     (if pos_of c entry = 0 then length (ccv_buffer c) - 1 else pos_of c entry - 1)"

text \<open>
  \<open>fetch_and_update\<close> run with no other thread at work: if the previous slot holds
  \<open>kLock\<close>, nobody will ever store a value there and the spin loop never ends; if
  \<open>value + delta\<close> is \<open>kLock\<close> the assertion fails.
\<close>

datatype ccv_failure = Spins_Forever | Assertion_Failed

definition fetch_and_update ::
  "('s::len, 'v::len) concurrent_circular_vector \<Rightarrow> 's word \<Rightarrow> 'v word \<Rightarrow>
     ccv_failure + ('v word \<times> ('s, 'v) concurrent_circular_vector)" where
  "fetch_and_update c entry delta =
     (let pos = pos_of c entry;
          prev_pos = prev_pos_of c entry;
          val = ccv_buffer c ! prev_pos
      in if val = kLock then Inl Spins_Forever
         else if val + delta = kLock then Inl Assertion_Failed
         else Inr (val, c\<lparr>ccv_buffer := (ccv_buffer c)[prev_pos := kLock, pos := val + delta]\<rparr>))"

text \<open>Tickets processed in order: each \<open>delta\<close> of the list is handed in with the next
  ticket.  The result is the list of returned values and the final state.\<close>

fun process_tickets ::
  "('s::len, 'v::len) concurrent_circular_vector \<Rightarrow> 'v word list \<Rightarrow>
     ccv_failure + ('v word list \<times> ('s, 'v) concurrent_circular_vector)" where
  "process_tickets c [] = Inr ([], c)"
| "process_tickets c (delta # deltas) =
     (case fetch_and_update (snd (next_ticket c)) (fst (next_ticket c)) delta of
        Inl e \<Rightarrow> Inl e
      | Inr (r, c') \<Rightarrow>
          (case process_tickets c' deltas of
             Inl e \<Rightarrow> Inl e
           | Inr (rs, c'') \<Rightarrow> Inr (r # rs, c'')))"

text \<open>After \<open>i\<close> tickets whose deltas sum up to \<open>tot\<close>: the counter is \<open>i\<close>, the buffer has
  \<open>L\<close> entries, the slot of the last ticket holds \<open>tot\<close> and every other slot holds
  \<open>kLock\<close>.\<close>

definition after_tickets ::
  "nat \<Rightarrow> nat \<Rightarrow> 'v word \<Rightarrow> ('s::len, 'v::len) concurrent_circular_vector \<Rightarrow> bool" where
  "after_tickets L i tot c \<longleftrightarrow>
     ccv_counter c = of_nat i \<and>
     ccv_buffer c = (replicate L kLock)[(i + (L - 1)) mod L := tot]"

text \<open>A vector of size 2 with 8-bit tickets and 8-bit values, as constructed.\<close>

definition ring3 :: "(8, 8) concurrent_circular_vector" where
  "ring3 = \<lparr>ccv_counter = 0, ccv_buffer = [kLock, kLock, 0]\<rparr>"

text \<open>A vector of size 255 with 8-bit tickets and 8-bit values, as constructed: 256
  slots.\<close>

definition ring256 :: "(8, 8) concurrent_circular_vector" where
  "ring256 = \<lparr>ccv_counter = 0, ccv_buffer = replicate 255 kLock @ [0]\<rparr>"

section \<open>Compressed graph: isolated nodes (kaminpar-shm/datastructures/compressed_graph.cc)\<close>

text \<open>
  Modelled from the spec: \<open>StaticArray\<close> and \<open>CompactStaticArray\<close>
  (\<open>kaminpar-common/datastructures\<close>) are not among the sources.  The spec says that
  restricting and unrestricting change the logical size without copying: the storage
  stays, \<open>restrict\<close> remembers the size and sets a smaller one, \<open>unrestrict\<close> sets the
  remembered size again.  A newly made array remembers its own size.
\<close>

record 'a static_array =
  sa_data :: "'a list"
  sa_size :: nat
  sa_unrestricted_size :: nat

definition StaticArray :: "'a list \<Rightarrow> 'a static_array" where
  "StaticArray xs = \<lparr>sa_data = xs, sa_size = length xs, sa_unrestricted_size = length xs\<rparr>"

definition restrict_array :: "'a static_array \<Rightarrow> nat \<Rightarrow> 'a static_array" where
  "restrict_array a new_size = a\<lparr>sa_unrestricted_size := sa_size a, sa_size := new_size\<rparr>"

definition unrestrict :: "'a static_array \<Rightarrow> 'a static_array" where
  "unrestrict a = a\<lparr>sa_size := sa_unrestricted_size a\<rparr>"

definition empty_array :: "'a static_array \<Rightarrow> bool" where
  "empty_array a \<longleftrightarrow> sa_size a = 0"

text \<open>The entries an iteration over the array sees.\<close>

definition entries :: "'a static_array \<Rightarrow> 'a list" where
  "entries a = take (sa_size a) (sa_data a)"

text \<open>
  The members of \<open>CompressedGraph\<close> that the two operations touch.  \<open>NodeID\<close> is a
  32-bit unsigned integer, so the bucket entries wrap around; node weights are signed.
\<close>

record compressed_graph =
  cg_nodes :: "nat static_array"
  cg_node_weights :: "int static_array"
  cg_total_node_weight :: int
  cg_max_node_weight :: int
  cg_sorted :: bool
  cg_buckets :: "32 word list"
  cg_number_of_buckets :: nat

text \<open>Modelled from the spec: \<open>n()\<close> is declared in \<open>compressed_graph.h\<close>, which is not
  among the sources.  \<open>nodes\<close> is the prefix-sum array \<open>nodes[0..n]\<close>, so the number of
  nodes is its size less one.\<close>

definition n :: "compressed_graph \<Rightarrow> 32 word" where
  "n g = of_nat (sa_size (cg_nodes g)) - 1"

definition update_total_node_weight :: "compressed_graph \<Rightarrow> compressed_graph" where
  "update_total_node_weight g =
     (if empty_array (cg_node_weights g)
      then g\<lparr>cg_total_node_weight := uint (n g), cg_max_node_weight := 1\<rparr>
      else g\<lparr>cg_total_node_weight := sum_list (entries (cg_node_weights g)),
             cg_max_node_weight := Max (set (entries (cg_node_weights g)))\<rparr>)"

text \<open>The loop \<open>for i in 0 ..< _buckets.size() - 1: f(_buckets[1 + i])\<close>.\<close>

definition map_tail :: "('a \<Rightarrow> 'a) \<Rightarrow> 'a list \<Rightarrow> 'a list" where
  "map_tail f xs = (case xs of [] \<Rightarrow> [] | x # rest \<Rightarrow> x # map f rest)"

text \<open>The two operations behind their assertion \<open>KASSERT(sorted())\<close>.\<close>

definition remove_isolated :: "compressed_graph \<Rightarrow> 32 word \<Rightarrow> compressed_graph" where
  "remove_isolated g isolated_nodes =
     (if isolated_nodes = 0 then g
      else
        let new_n = n g - isolated_nodes;
            g1 = g\<lparr>cg_nodes := restrict_array (cg_nodes g) (unat (new_n + 1))\<rparr>;
            g2 = (if \<not> empty_array (cg_node_weights g1)
                  then g1\<lparr>cg_node_weights := restrict_array (cg_node_weights g1) (unat new_n)\<rparr>
                  else g1);
            g3 = update_total_node_weight g2;
            g4 = g3\<lparr>cg_buckets := map_tail (\<lambda>b. b - isolated_nodes) (cg_buckets g3)\<rparr>
        in if cg_number_of_buckets g4 = 1 then g4\<lparr>cg_number_of_buckets := 0\<rparr> else g4)"

definition integrate_isolated :: "compressed_graph \<Rightarrow> compressed_graph" where
  "integrate_isolated g =
     (let nonisolated_nodes = n g;
          g1 = g\<lparr>cg_nodes := unrestrict (cg_nodes g),
                 cg_node_weights := unrestrict (cg_node_weights g)\<rparr>;
          isolated_nodes = n g1 - nonisolated_nodes;
          g2 = update_total_node_weight g1;
          g3 = g2\<lparr>cg_buckets := map_tail (\<lambda>b. b + isolated_nodes) (cg_buckets g2)\<rparr>
      in if cg_number_of_buckets g3 = 0 then g3\<lparr>cg_number_of_buckets := 1\<rparr> else g3)"

text \<open>The operations themselves; \<open>None\<close> is the failed assertion.\<close>

definition remove_isolated_nodes :: "compressed_graph \<Rightarrow> 32 word \<Rightarrow> compressed_graph option" where
  "remove_isolated_nodes g isolated_nodes =
     (if \<not> cg_sorted g then None else Some (remove_isolated g isolated_nodes))"

definition integrate_isolated_nodes :: "compressed_graph \<Rightarrow> compressed_graph option" where
  "integrate_isolated_nodes g =
     (if \<not> cg_sorted g then None else Some (integrate_isolated g))"

text \<open>
  The state a constructed graph is in: no array is restricted, and the two weight
  members are what \<open>update_total_node_weight\<close> computes (the constructor computes them
  the same way).
\<close>

definition constructed :: "compressed_graph \<Rightarrow> bool" where
  "constructed g \<longleftrightarrow>
     sa_unrestricted_size (cg_nodes g) = sa_size (cg_nodes g) \<and>
     sa_unrestricted_size (cg_node_weights g) = sa_size (cg_node_weights g) \<and>
     update_total_node_weight g = g"

text \<open>Four nodes with weights 3, 1, 4, 1, the last two isolated; the bucket array cut
  down to four entries.\<close>

definition small_graph :: compressed_graph where
  "small_graph =
     \<lparr>cg_nodes = StaticArray [0, 1, 2, 2, 2],
      cg_node_weights = StaticArray [3, 1, 4, 1],
      cg_total_node_weight = 9,
      cg_max_node_weight = 4,
      cg_sorted = True,
      cg_buckets = [0, 2, 4, 4],
      cg_number_of_buckets = 2\<rparr>"

section \<open>Move sets of the balancer (move_sets.cc, in unnamed/part_003)\<close>

text \<open>
  What \<open>MoveSetBuilder\<close> reads of the distributed partitioned graph: the \<open>n\<close> owned
  nodes \<open>0 ..< n\<close> (\<open>is_owned_node(v)\<close> is \<open>v < n\<close>), the \<open>k\<close> blocks, the half-edges
  \<open>(e, v)\<close> of every node, edge and node weights, the block of every node and the weight
  of every block.
\<close>

record dist_graph =
  dg_n :: nat
  dg_k :: nat
  dg_neighbors :: "nat \<Rightarrow> (nat \<times> nat) list"
  dg_edge_weight :: "nat \<Rightarrow> int"
  dg_node_weight :: "nat \<Rightarrow> int"
  dg_block :: "nat \<Rightarrow> nat"
  dg_block_weight :: "nat \<Rightarrow> int"

definition kInvalidNodeID :: nat where
  "kInvalidNodeID = 4294967295"

definition kInvalidBlockID :: nat where
  "kInvalidBlockID = 4294967295"

text \<open>
  Modelled from the spec: \<open>BinaryMaxHeap\<close> (\<open>common/datastructures/binary_heap.h\<close>) is not
  among the sources.  The frontier is the max-priority queue of the spec, keyed by
  connectivity to the current set: a list of \<open>(id, key)\<close> entries.  \<open>peek_id\<close> is a
  parameter of the model, so that nothing depends on how the heap orders equal keys.
\<close>

type_synonym heap = "(nat \<times> int) list"

definition heap_push :: "heap \<Rightarrow> nat \<Rightarrow> int \<Rightarrow> heap" where
  "heap_push h v key = h @ [(v, key)]"

definition heap_contains :: "heap \<Rightarrow> nat \<Rightarrow> bool" where
  "heap_contains h v \<longleftrightarrow> v \<in> fst ` set h"

definition heap_key :: "heap \<Rightarrow> nat \<Rightarrow> int" where
  "heap_key h v = (case map_of h v of Some key \<Rightarrow> key | None \<Rightarrow> 0)"

definition heap_decrease_priority :: "heap \<Rightarrow> nat \<Rightarrow> int \<Rightarrow> heap" where
  "heap_decrease_priority h v key = map (\<lambda>p. if fst p = v then (v, key) else p) h"

definition heap_remove :: "heap \<Rightarrow> nat \<Rightarrow> heap" where
  "heap_remove h v = filter (\<lambda>p. fst p \<noteq> v) h"

text \<open>A max-heap's \<open>peek_id\<close>: on a non-empty heap it is the id of an entry of
  greatest key.\<close>

definition valid_peek :: "(heap \<Rightarrow> nat) \<Rightarrow> bool" where
  "valid_peek peek \<longleftrightarrow>
     (\<forall>h. h \<noteq> [] \<longrightarrow> (\<exists>key. (peek h, key) \<in> set h \<and> (\<forall>p\<in>set h. snd p \<le> key)))"

text \<open>One such \<open>peek_id\<close>: the first entry of greatest key.\<close>

fun first_max :: "heap \<Rightarrow> nat" where
  "first_max [] = 0"
| "first_max [p] = fst p"
| "first_max (p # q # h) =
     (if \<forall>r\<in>set (q # h). snd r \<le> snd p then fst p else first_max (q # h))"

text \<open>
  Everything the builder is given.  Of the second heap, \<open>_cur_conns\<close>, only the results
  of its operations enter the state, and the builder uses it before it has pushed
  anything; its type \<open>'h\<close> and its operations are therefore parameters.
\<close>

record 'h builder_env =
  env_graph :: dist_graph
  env_max_block_weight :: "nat \<Rightarrow> int"
  frontier_peek_id :: "heap \<Rightarrow> nat"
  conns_new :: "'h"
  conns_clear :: "'h \<Rightarrow> 'h"
  conns_push :: "'h \<Rightarrow> nat \<Rightarrow> int \<Rightarrow> 'h"
  conns_decrease_priority_by :: "'h \<Rightarrow> nat \<Rightarrow> int \<Rightarrow> 'h"
  conns_peek_id :: "'h \<Rightarrow> nat"
  conns_peek_key :: "'h \<Rightarrow> int"

text \<open>The members of \<open>MoveSetBuilder\<close>.  \<open>seeds\<close> is not in the source: it records the
  seed of every call of \<open>grow_move_set\<close>, in order, so that the seed of set \<open>s\<close> is
  \<open>seeds ! s\<close>.\<close>

record 'h move_set_builder =
  node_to_move_set :: "nat list"
  move_sets :: "nat list"
  move_set_indices :: "nat list"
  frontier :: heap
  cur_pos :: nat
  cur_move_set :: nat
  cur_block_conn :: int
  cur_conns :: "'h"
  cur_block :: nat
  cur_weight :: int
  best_prefix_pos :: nat
  best_prefix_block :: nat
  best_prefix_conn :: int
  seeds :: "nat list"

text \<open>The constructor.  The indices array is allocated without initialisation; only its
  first entry is set.\<close>

definition MoveSetBuilder :: "'h builder_env \<Rightarrow> 'h move_set_builder" where
  "MoveSetBuilder env =
     \<lparr>node_to_move_set = replicate (dg_n (env_graph env)) kInvalidNodeID,
      move_sets = replicate (dg_n (env_graph env)) kInvalidNodeID,
      move_set_indices = replicate (dg_n (env_graph env) + 1) 0,
      frontier = [],
      cur_pos = 0,
      cur_move_set = 0,
      cur_block_conn = 0,
      cur_conns = conns_new env,
      cur_block = kInvalidBlockID,
      cur_weight = 0,
      best_prefix_pos = 0,
      best_prefix_block = kInvalidBlockID,
      best_prefix_conn = 0,
      seeds = []\<rparr>"

text \<open>Ways in which a run does not produce a result: an array is written outside its
  bounds, or the loop of \<open>grow_move_set\<close> is still running when the fuel is used up.
  The \<open>KASSERT\<close>s of the builder are left out: an assertion can only stop a run, so
  what holds of every result without them holds of every result with them.\<close>

datatype builder_failure = Out_Of_Bounds | Out_Of_Fuel

text \<open>One iteration of the loop over the neighbours in \<open>add_to_move_set\<close>.\<close>

definition conn_edge ::
  "'h builder_env \<Rightarrow> 'h move_set_builder \<Rightarrow> nat \<times> nat \<Rightarrow> 'h move_set_builder" where
  "conn_edge env st ev =
     (let g = env_graph env; w = dg_edge_weight g (fst ev); v = snd ev
      in if v < dg_n g \<and> node_to_move_set st ! v = cur_move_set st
         then st\<lparr>cur_block_conn := cur_block_conn st - w\<rparr>
         else let bv = dg_block g v
              in if bv = cur_block st then st\<lparr>cur_block_conn := cur_block_conn st + w\<rparr>
                 else st\<lparr>cur_conns := conns_decrease_priority_by env (cur_conns st) bv w\<rparr>)"

definition add_to_move_set ::
  "'h builder_env \<Rightarrow> 'h move_set_builder \<Rightarrow> nat \<Rightarrow> builder_failure + 'h move_set_builder" where
  "add_to_move_set env st u =
     (let g = env_graph env
      in if length (node_to_move_set st) \<le> u \<or> length (move_sets st) \<le> cur_pos st
         then Inl Out_Of_Bounds
         else
           let st1 = (if cur_block st = kInvalidBlockID then st\<lparr>cur_block := dg_block g u\<rparr>
                      else st);
               st2 = st1\<lparr>cur_weight := cur_weight st1 + dg_node_weight g u,
                         node_to_move_set := (node_to_move_set st1)[u := cur_move_set st1],
                         move_sets := (move_sets st1)[cur_pos st1 := u],
                         cur_pos := cur_pos st1 + 1\<rparr>;
               st3 = foldl (conn_edge env) st2 (dg_neighbors g u)
           in Inr (if conns_peek_key env (cur_conns st3) \<ge> best_prefix_conn st3
                   then st3\<lparr>best_prefix_block := conns_peek_id env (cur_conns st3),
                             best_prefix_conn := conns_peek_key env (cur_conns st3),
                             best_prefix_pos := cur_pos st3\<rparr>
                   else st3))"

definition reset_cur_conns :: "'h builder_env \<Rightarrow> 'h \<Rightarrow> 'h" where
  "reset_cur_conns env h =
     foldl (\<lambda>h b. conns_push env h b 0) (conns_clear env h) [0..<dg_k (env_graph env)]"

definition finish_move_set ::
  "'h builder_env \<Rightarrow> 'h move_set_builder \<Rightarrow> builder_failure + 'h move_set_builder" where
  "finish_move_set env st =
     (if (\<exists>pos\<in>set [best_prefix_pos st..<cur_pos st].
            length (move_sets st) \<le> pos \<or> length (node_to_move_set st) \<le> move_sets st ! pos) \<or>
         length (move_set_indices st) \<le> cur_move_set st + 1
      then Inl Out_Of_Bounds
      else Inr (st\<lparr>node_to_move_set :=
                     foldl (\<lambda>a pos. a[move_sets st ! pos := kInvalidNodeID])
                       (node_to_move_set st) [best_prefix_pos st..<cur_pos st],
                   move_set_indices :=
                     (move_set_indices st)[cur_move_set st + 1 :=
                        move_set_indices st ! cur_move_set st + best_prefix_pos st],
                   cur_move_set := cur_move_set st + 1,
                   cur_conns := reset_cur_conns env (cur_conns st),
                   cur_block := kInvalidBlockID,
                   cur_block_conn := 0,
                   cur_pos := best_prefix_pos st\<rparr>))"

text \<open>One iteration of the loop over the neighbours in \<open>grow_move_set\<close>.\<close>

definition push_edge ::
  "'h builder_env \<Rightarrow> nat \<Rightarrow> 'h move_set_builder \<Rightarrow> nat \<times> nat \<Rightarrow> 'h move_set_builder" where
  "push_edge env bu st ev =
     (let g = env_graph env; v = snd ev; bv = dg_block g v
      in if bv = bu
         then if heap_contains (frontier st) v
              then st\<lparr>frontier := heap_decrease_priority (frontier st) v
                                     (heap_key (frontier st) v + dg_edge_weight g (fst ev))\<rparr>
              else st\<lparr>frontier := heap_push (frontier st) v (dg_edge_weight g (fst ev))\<rparr>
         else st)"

text \<open>The \<open>while\<close> loop of \<open>grow_move_set\<close>, run for at most \<open>fuel\<close> iterations.\<close>

fun grow_loop ::
  "'h builder_env \<Rightarrow> int \<Rightarrow> nat \<Rightarrow> 'h move_set_builder \<Rightarrow>
     builder_failure + 'h move_set_builder" where
  "grow_loop env max_weight 0 st =
     (if frontier st \<noteq> [] \<and> cur_weight st < max_weight then Inl Out_Of_Fuel else Inr st)"
| "grow_loop env max_weight (Suc fuel) st =
     (if frontier st \<noteq> [] \<and> cur_weight st < max_weight
      then
        let u = frontier_peek_id env (frontier st);
            bu = dg_block (env_graph env) u
        in case add_to_move_set env (st\<lparr>frontier := heap_remove (frontier st) u\<rparr>) u of
             Inl e \<Rightarrow> Inl e
           | Inr st' \<Rightarrow>
               grow_loop env max_weight fuel
                 (foldl (push_edge env bu) st' (dg_neighbors (env_graph env) u))
      else Inr st)"

definition grow_move_set ::
  "'h builder_env \<Rightarrow> nat \<Rightarrow> nat \<Rightarrow> int \<Rightarrow> 'h move_set_builder \<Rightarrow>
     builder_failure + 'h move_set_builder" where
  "grow_move_set env fuel seed max_weight st =
     (case grow_loop env max_weight fuel
             (st\<lparr>frontier := heap_push (frontier st) seed 0, seeds := seeds st @ [seed]\<rparr>) of
        Inl e \<Rightarrow> Inl e
      | Inr st' \<Rightarrow> finish_move_set env st')"

text \<open>The body of the loop of \<open>build\<close> for the node \<open>u\<close>, and \<open>build\<close>.\<close>

definition build_node ::
  "'h builder_env \<Rightarrow> nat \<Rightarrow> int \<Rightarrow> builder_failure + 'h move_set_builder \<Rightarrow> nat \<Rightarrow>
     builder_failure + 'h move_set_builder" where
  "build_node env fuel max_move_set_weight r u =
     (case r of
        Inl e \<Rightarrow> Inl e
      | Inr st \<Rightarrow>
          let g = env_graph env; bu = dg_block g u
          in if dg_block_weight g bu > env_max_block_weight env bu \<and>
                node_to_move_set st ! u = kInvalidNodeID
             then grow_move_set env fuel u max_move_set_weight st
             else Inr st)"

definition build ::
  "'h builder_env \<Rightarrow> nat \<Rightarrow> int \<Rightarrow> 'h move_set_builder \<Rightarrow>
     builder_failure + 'h move_set_builder" where
  "build env fuel max_move_set_weight st =
     foldl (build_node env fuel max_move_set_weight) (Inr st) [0..<dg_n (env_graph env)]"

text \<open>\<open>finalize\<close> hands \<open>_node_to_move_set\<close>, \<open>_move_sets\<close> and the resized
  \<open>_move_set_indices\<close> to \<open>MoveSets\<close>.\<close>

definition finalize :: "'h builder_env \<Rightarrow> 'h move_set_builder \<Rightarrow> nat list \<times> nat list \<times> nat list" where
  "finalize env st =
     (node_to_move_set st, move_sets st,
      (take (cur_move_set st + 1) (move_set_indices st))[cur_move_set st := dg_n (env_graph env)])"

definition build_greedy_move_sets ::
  "'h builder_env \<Rightarrow> nat \<Rightarrow> int \<Rightarrow> builder_failure + (nat list \<times> nat list \<times> nat list)" where
  "build_greedy_move_sets env fuel max_move_set_weight =
     (case build env fuel max_move_set_weight (MoveSetBuilder env) of
        Inl e \<Rightarrow> Inl e
      | Inr st \<Rightarrow> Inr (finalize env st))"



text \<open>
  Membership as the builder records it: a node whose entry in \<open>_node_to_move_set\<close> is a
  set has the block of the seed of that set.
\<close>

definition members_ok :: "'h builder_env \<Rightarrow> 'h move_set_builder \<Rightarrow> bool" where
  "members_ok env st \<longleftrightarrow>
     (\<forall>u<dg_n (env_graph env).
        node_to_move_set st ! u \<noteq> kInvalidNodeID \<longrightarrow>
        node_to_move_set st ! u < length (seeds st) \<and>
        dg_block (env_graph env) u =
          dg_block (env_graph env) (seeds st ! (node_to_move_set st ! u)))"

text \<open>The builder between two calls of \<open>grow_move_set\<close>: a frontier that has been left
  non-empty is never popped again, because \<open>_cur_weight\<close> is not reset.\<close>

definition between_sets :: "'h builder_env \<Rightarrow> int \<Rightarrow> 'h move_set_builder \<Rightarrow> bool" where
  "between_sets env max_weight st \<longleftrightarrow>
     length (node_to_move_set st) = dg_n (env_graph env) \<and>
     cur_move_set st = length (seeds st) \<and>
     (frontier st = [] \<or> max_weight \<le> cur_weight st) \<and>
     members_ok env st"

text \<open>The builder inside the loop of \<open>grow_move_set\<close>: as long as the loop can go on,
  the frontier holds nodes of the block of the seed only.\<close>

definition growing :: "'h builder_env \<Rightarrow> int \<Rightarrow> 'h move_set_builder \<Rightarrow> bool" where
  "growing env max_weight st \<longleftrightarrow>
     length (node_to_move_set st) = dg_n (env_graph env) \<and>
     Suc (cur_move_set st) = length (seeds st) \<and>
     cur_move_set st \<noteq> kInvalidNodeID \<and>
     members_ok env st \<and>
     (cur_weight st < max_weight \<longrightarrow>
        (\<forall>v\<in>fst ` set (frontier st).
           dg_block (env_graph env) v = dg_block (env_graph env) (last (seeds st))))"

definition is_overloaded :: "'h builder_env \<Rightarrow> nat \<Rightarrow> bool" where
  "is_overloaded env u \<longleftrightarrow>
     dg_block_weight (env_graph env) (dg_block (env_graph env) u)
       > env_max_block_weight env (dg_block (env_graph env) u)"

text \<open>
  An example: the path 0 - 1 - 2 - 3 with unit weights, nodes 0, 1, 2 in block 0 and
  node 3 in block 1, every block capped at weight 2, so that block 0 is overloaded.  For
  \<open>_cur_conns\<close> the example takes the list heap as well; on an empty heap its
  \<open>peek_key\<close> is 0.
\<close>

definition list_peek_key :: "heap \<Rightarrow> int" where
  "list_peek_key h = (if h = [] then 0 else heap_key h (first_max h))"

definition list_decrease_priority_by :: "heap \<Rightarrow> nat \<Rightarrow> int \<Rightarrow> heap" where
  "list_decrease_priority_by h b w = map (\<lambda>p. if fst p = b then (b, snd p + w) else p) h"

definition small_env :: "heap builder_env" where
  "small_env =
     \<lparr>env_graph =
        \<lparr>dg_n = 4, dg_k = 2,
         dg_neighbors = (\<lambda>u. if u = 0 then [(0, 1)]
                             else if u = 1 then [(1, 0), (2, 2)]
                             else if u = 2 then [(3, 1), (4, 3)]
                             else if u = 3 then [(5, 2)] else []),
         dg_edge_weight = (\<lambda>e. 1),
         dg_node_weight = (\<lambda>u. 1),
         dg_block = (\<lambda>u. if u < 3 then 0 else 1),
         dg_block_weight = (\<lambda>b. if b = 0 then 3 else 1)\<rparr>,
      env_max_block_weight = (\<lambda>b. 2),
      frontier_peek_id = first_max,
      conns_new = [],
      conns_clear = (\<lambda>h. []),
      conns_push = heap_push,
      conns_decrease_priority_by = list_decrease_priority_by,
      conns_peek_id = first_max,
      conns_peek_key = list_peek_key\<rparr>"


section \<open>Dense gain cache: consistency under initialisation and moves\<close>

lemma length_add_at [simp]: "length (add_at xs i d) = length xs"
  by (simp add: add_at_def)

lemma length_foldl_add_at [simp]:
  "length (foldl (\<lambda>xs p. add_at xs (fst p) (snd p)) xs ups) = length xs"
  by (induction ups arbitrary: xs) simp_all

lemma foldl_add_at_nth:
  "j < length xs \<Longrightarrow>
   foldl (\<lambda>xs p. add_at xs (fst p) (snd p)) xs ups ! j =
     xs ! j + sum_list (map (\<lambda>p. if fst p = j then snd p else 0) ups)"
  by (induction ups arbitrary: xs) (simp_all add: add_at_def nth_list_update)

lemma index_plain:
  "u < gc_n gc \<Longrightarrow> b < gc_k gc \<Longrightarrow> gc_n gc * gc_k gc < 2 ^ 32 \<Longrightarrow>
   index gc u b = u * gc_k gc + b \<and> index gc u b < gc_n gc * gc_k gc"
proof -
  assume u: "u < gc_n gc" and b: "b < gc_k gc" and s: "gc_n gc * gc_k gc < 2 ^ 32"
  have "u * gc_k gc + b < Suc u * gc_k gc" using b by simp
  also have "\<dots> \<le> gc_n gc * gc_k gc" using u by (simp only: mult_le_mono1 Suc_leI)
  finally have lt: "u * gc_k gc + b < gc_n gc * gc_k gc" .
  with s show ?thesis by (simp add: index_def)
qed

lemma index_inj:
  assumes "u < gc_n gc" "v < gc_n gc" "a < gc_k gc" "b < gc_k gc" "gc_n gc * gc_k gc < 2 ^ 32"
  shows "index gc u a = index gc v b \<longleftrightarrow> u = v \<and> a = b"
proof -
  have "u * gc_k gc + a = v * gc_k gc + b \<longleftrightarrow> u = v \<and> a = b"
  proof
    assume eq: "u * gc_k gc + a = v * gc_k gc + b"
    have "(u * gc_k gc + a) div gc_k gc = u" using assms by simp
    moreover have "(v * gc_k gc + b) div gc_k gc = v" using assms by simp
    ultimately have "u = v" using eq by simp
    with eq show "u = v \<and> a = b" by simp
  qed simp
  with assms show ?thesis by (simp add: index_plain)
qed



lemma recompute_fold_k [simp]: "gc_k (foldl (recompute_edge g u) gc es) = gc_k gc"
  by (induction es arbitrary: gc) (simp_all add: recompute_edge_def Let_def)

lemma recompute_fold_n [simp]: "gc_n (foldl (recompute_edge g u) gc es) = gc_n gc"
  by (induction es arbitrary: gc) (simp_all add: recompute_edge_def Let_def)

lemma recompute_fold_cache:
  "gain_cache (foldl (recompute_edge g u) gc es) =
     add_all (gain_cache gc)
       (map (\<lambda>ev. (index gc u (pg_block g ! snd ev), pg_edge_weight g (fst ev))) es)"
  by (induction es arbitrary: gc) (simp_all add: recompute_edge_def Let_def index_def)

lemma recompute_fold_degrees:
  "weighted_degrees (foldl (recompute_edge g u) gc es) =
     add_all (weighted_degrees gc) (map (\<lambda>ev. (u, pg_edge_weight g (fst ev))) es)"
  by (induction es arbitrary: gc) (simp_all add: recompute_edge_def Let_def)

lemma recompute_node_k [simp]: "gc_k (recompute_node g gc u) = gc_k gc"
  by (simp add: recompute_node_def)

lemma recompute_node_n [simp]: "gc_n (recompute_node g gc u) = gc_n gc"
  by (simp add: recompute_node_def)

lemma recompute_node_lengths [simp]:
  "length (gain_cache (recompute_node g gc u)) = length (gain_cache gc)"
  "length (weighted_degrees (recompute_node g gc u)) = length (weighted_degrees gc)"
  by (simp_all add: recompute_node_def recompute_fold_cache recompute_fold_degrees)

lemma recompute_node_degrees:
  assumes "v < length (weighted_degrees gc)"
  shows "weighted_degrees (recompute_node g gc u) ! v =
           (if v = u then deg g u else weighted_degrees gc ! v)"
proof -
  have "sum_list (map (\<lambda>p. if fst p = v then snd p else 0)
          (map (\<lambda>ev. (u, pg_edge_weight g (fst ev))) es)) =
        (if v = u then sum_list (map (\<lambda>ev. pg_edge_weight g (fst ev)) es) else 0)" for es
    by (induction es) simp_all
  with assms show ?thesis
    by (simp add: recompute_node_def recompute_fold_degrees foldl_add_at_nth deg_def
        index_def comp_def)
qed

lemma recompute_node_cache:
  assumes "i < length (gain_cache gc)"
  shows "gain_cache (recompute_node g gc u) ! i =
           gain_cache gc ! i +
           sum_list (map (\<lambda>ev. if index gc u (pg_block g ! snd ev) = i
                                then pg_edge_weight g (fst ev) else 0) (pg_neighbors g u))"
proof -
  have "sum_list (map (\<lambda>p. if fst p = i then snd p else 0)
          (map (\<lambda>ev. (index gc u (pg_block g ! snd ev), pg_edge_weight g (fst ev))) es)) =
        sum_list (map (\<lambda>ev. if index gc u (pg_block g ! snd ev) = i
                                then pg_edge_weight g (fst ev) else 0) es)" for es
    by (induction es) simp_all
  with assms show ?thesis
    by (simp add: recompute_node_def recompute_fold_cache foldl_add_at_nth index_def)
qed

lemma move_fold_k [simp]: "gc_k (foldl (move_edge g a b) gc es) = gc_k gc"
  by (induction es arbitrary: gc) (simp_all add: move_edge_def Let_def)

lemma move_fold_n [simp]: "gc_n (foldl (move_edge g a b) gc es) = gc_n gc"
  by (induction es arbitrary: gc) (simp_all add: move_edge_def Let_def)

lemma move_fold_degrees [simp]:
  "weighted_degrees (foldl (move_edge g a b) gc es) = weighted_degrees gc"
  by (induction es arbitrary: gc) (simp_all add: move_edge_def Let_def)

lemma move_fold_cache:
  "gain_cache (foldl (move_edge g a b) gc es) =
     add_all (gain_cache gc)
       (concat (map (\<lambda>ev. [(index gc (snd ev) a, - pg_edge_weight g (fst ev)),
                            (index gc (snd ev) b, pg_edge_weight g (fst ev))]) es))"
  by (induction es arbitrary: gc) (simp_all add: move_edge_def Let_def index_def)

lemma move_cache:
  assumes "i < length (gain_cache gc)"
  shows "gain_cache (move g gc node a b) ! i =
           gain_cache gc ! i
           - sum_list (map (\<lambda>ev. if index gc (snd ev) a = i
                                  then pg_edge_weight g (fst ev) else 0) (pg_neighbors g node))
           + sum_list (map (\<lambda>ev. if index gc (snd ev) b = i
                                  then pg_edge_weight g (fst ev) else 0) (pg_neighbors g node))"
proof -
  have "sum_list (map (\<lambda>p. if fst p = i then snd p else 0)
          (concat (map (\<lambda>ev. [(index gc (snd ev) a, - pg_edge_weight g (fst ev)),
                               (index gc (snd ev) b, pg_edge_weight g (fst ev))]) es))) =
        - sum_list (map (\<lambda>ev. if index gc (snd ev) a = i
                                then pg_edge_weight g (fst ev) else 0) es)
        + sum_list (map (\<lambda>ev. if index gc (snd ev) b = i
                                then pg_edge_weight g (fst ev) else 0) es)" for es
    by (induction es) simp_all
  with assms show ?thesis
    by (simp add: move_def move_fold_cache foldl_add_at_nth)
qed

lemma move_simps [simp]:
  "gc_k (move g gc node a b) = gc_k gc"
  "gc_n (move g gc node a b) = gc_n gc"
  "weighted_degrees (move g gc node a b) = weighted_degrees gc"
  "length (gain_cache (move g gc node a b)) = length (gain_cache gc)"
  by (simp_all add: move_def move_fold_cache)


lemma conn_set_block:
  assumes "node < length (pg_block g)"
  shows "conn (set_block g node b) u c =
           conn g u c
           - (if pg_block g ! node = c then weight_between g u node else 0)
           + (if b = c then weight_between g u node else 0)"
proof -
  have "sum_list (map (\<lambda>ev. if (pg_block g)[node := b] ! snd ev = c
                             then pg_edge_weight g (fst ev) else 0) es) =
        sum_list (map (\<lambda>ev. if pg_block g ! snd ev = c
                             then pg_edge_weight g (fst ev) else 0) es)
        - (if pg_block g ! node = c
           then sum_list (map (\<lambda>ev. if snd ev = node then pg_edge_weight g (fst ev) else 0) es)
           else 0)
        + (if b = c
           then sum_list (map (\<lambda>ev. if snd ev = node then pg_edge_weight g (fst ev) else 0) es)
           else 0)" for es
    using assms by (induction es) (simp_all add: nth_list_update)
  then show ?thesis
    by (simp add: conn_def set_block_def weight_between_def cong: if_cong)
qed

lemma set_block_simps [simp]:
  "pg_n (set_block g u b) = pg_n g"
  "pg_k (set_block g u b) = pg_k g"
  "pg_neighbors (set_block g u b) = pg_neighbors g"
  "pg_edge_weight (set_block g u b) = pg_edge_weight g"
  "length (pg_block (set_block g u b)) = length (pg_block g)"
  by (simp_all add: set_block_def)

lemma deg_set_block [simp]: "deg (set_block g u b) v = deg g v"
  by (simp add: deg_def)

lemma weight_between_set_block [simp]:
  "weight_between (set_block g u b) v w = weight_between g v w"
  by (simp add: weight_between_def cong: if_cong)

lemma block_set_block: "pg_block (set_block g u b) = (pg_block g)[u := b]"
  by (simp add: set_block_def)

lemma wf_graph_set_block:
  "wf_graph g \<Longrightarrow> u < pg_n g \<Longrightarrow> b < pg_k g \<Longrightarrow> wf_graph (set_block g u b)"
  unfolding wf_graph_def by (simp add: block_set_block nth_list_update)

lemma sum_list_cong:
  "(\<And>x. x \<in> set xs \<Longrightarrow> f x = g x) \<Longrightarrow> sum_list (map f xs) = (sum_list (map g xs) :: 'w::len word)"
  by (induction xs) simp_all

text \<open>Edges of \<open>node\<close> that hit the cache entry \<open>(u, b)\<close> through block \<open>a\<close>.\<close>

lemma hits_entry:
  assumes fits: "fits gc g" and wf: "wf_graph g"
    and node: "node < pg_n g" and u: "u < pg_n g" and a: "a < gc_k gc" and b: "b < gc_k gc"
  shows "sum_list (map (\<lambda>ev. if index gc (snd ev) a = index gc u b
                              then pg_edge_weight g (fst ev) else 0) (pg_neighbors g node)) =
         (if a = b then weight_between g node u else 0)"
proof -
  have "(if index gc (snd ev) a = index gc u b then pg_edge_weight g (fst ev) else 0) =
        (if a = b then (if snd ev = u then pg_edge_weight g (fst ev) else 0) else 0)"
    if "ev \<in> set (pg_neighbors g node)" for ev
  proof -
    from wf node that have "snd ev < pg_n g" by (auto simp: wf_graph_def)
    with fits u have "snd ev < gc_n gc" "u < gc_n gc" "gc_n gc * gc_k gc < 2 ^ 32"
      by (simp_all add: fits_def)
    then have "index gc (snd ev) a = index gc u b \<longleftrightarrow> snd ev = u \<and> a = b"
      using a b by (simp add: index_inj)
    then show ?thesis by simp
  qed
  then have "sum_list (map (\<lambda>ev. if index gc (snd ev) a = index gc u b
                              then pg_edge_weight g (fst ev) else 0) (pg_neighbors g node)) =
        sum_list (map (\<lambda>ev. if a = b then (if snd ev = u then pg_edge_weight g (fst ev) else 0)
                              else 0) (pg_neighbors g node))"
    by (rule sum_list_cong)
  then show ?thesis by (simp add: weight_between_def)
qed

text \<open>Edges of \<open>m\<close> that \<open>recompute_node\<close> books on the entry \<open>(u, b)\<close>.\<close>

lemma books_entry:
  assumes fits: "fits gc g" and wf: "wf_graph g"
    and m: "m < pg_n g" and u: "u < pg_n g" and b: "b < gc_k gc"
  shows "sum_list (map (\<lambda>ev. if index gc m (pg_block g ! snd ev) = index gc u b
                              then pg_edge_weight g (fst ev) else 0) (pg_neighbors g m)) =
         (if m = u then conn g u b else 0)"
proof -
  have "(if index gc m (pg_block g ! snd ev) = index gc u b then pg_edge_weight g (fst ev) else 0) =
        (if m = u then (if pg_block g ! snd ev = b then pg_edge_weight g (fst ev) else 0) else 0)"
    if "ev \<in> set (pg_neighbors g m)" for ev
  proof -
    from wf m that have "snd ev < pg_n g" by (auto simp: wf_graph_def)
    with wf have "pg_block g ! snd ev < pg_k g" by (simp add: wf_graph_def)
    with fits have bv: "pg_block g ! snd ev < gc_k gc" by (simp add: fits_def)
    from fits m u have "m < gc_n gc" "u < gc_n gc" "gc_n gc * gc_k gc < 2 ^ 32"
      by (simp_all add: fits_def)
    then have "index gc m (pg_block g ! snd ev) = index gc u b
                 \<longleftrightarrow> m = u \<and> pg_block g ! snd ev = b"
      using bv b by (simp add: index_inj)
    then show ?thesis by simp
  qed
  then have "sum_list (map (\<lambda>ev. if index gc m (pg_block g ! snd ev) = index gc u b
                              then pg_edge_weight g (fst ev) else 0) (pg_neighbors g m)) =
        sum_list (map (\<lambda>ev. if m = u then (if pg_block g ! snd ev = b
                                then pg_edge_weight g (fst ev) else 0) else 0) (pg_neighbors g m))"
    by (rule sum_list_cong)
  then show ?thesis by (simp add: conn_def)
qed


lemma conn_sum_blocks:
  assumes "\<forall>ev\<in>set (pg_neighbors g u). pg_block g ! snd ev < K"
  shows "(\<Sum>b<K. conn g u b) = deg g u"
proof -
  have "\<forall>ev\<in>set es. pg_block g ! snd ev < K \<Longrightarrow>
        (\<Sum>b<K. sum_list (map (\<lambda>ev. if pg_block g ! snd ev = b
                                      then pg_edge_weight g (fst ev) else 0) es)) =
        sum_list (map (\<lambda>ev. pg_edge_weight g (fst ev)) es)" for es
    by (induction es) (simp_all add: sum.distrib)
  with assms show ?thesis by (simp add: conn_def deg_def)
qed

lemma fits_recompute_node: "fits gc g \<Longrightarrow> fits (recompute_node g gc u) g"
  by (simp add: fits_def)

lemma fits_reset: "fits gc g \<Longrightarrow> fits (reset gc) g"
  by (simp add: fits_def reset_def)

lemma fits_move: "fits gc g \<Longrightarrow> fits (move g gc node a b) (set_block g node c)"
  by (simp add: fits_def)

lemma index_in_cache:
  assumes "fits gc g" "u < pg_n g" "b < gc_k gc"
  shows "index gc u b < length (gain_cache gc)"
proof -
  from assms have u: "u < gc_n gc" and s: "gc_n gc * gc_k gc < 2 ^ 32"
    by (simp_all add: fits_def)
  from index_plain [OF u assms(3) s] have "index gc u b < gc_n gc * gc_k gc" ..
  with assms(1) show ?thesis by (simp add: fits_def)
qed

lemma recompute_prefix:
  assumes fits: "fits gc g" and wf: "wf_graph g"
  shows "m \<le> pg_n g \<Longrightarrow>
         fits (foldl (recompute_node g) (reset gc) [0..<m]) g \<and>
         gc_k (foldl (recompute_node g) (reset gc) [0..<m]) = gc_k gc \<and>
         (\<forall>u<pg_n g. \<forall>b<gc_k gc.
            gain_cache (foldl (recompute_node g) (reset gc) [0..<m]) ! index gc u b =
              (if u < m then conn g u b else 0)) \<and>
         (\<forall>u<m. weighted_degrees (foldl (recompute_node g) (reset gc) [0..<m]) ! u = deg g u)"
proof (induction m)
  case 0
  have "gain_cache (reset gc) ! index gc u b = 0" if "u < pg_n g" "b < gc_k gc" for u b
    using index_in_cache [OF fits that] by (simp add: reset_def)
  with fits show ?case by (simp add: fits_reset) (simp add: reset_def)
next
  case (Suc m)
  let ?c = "foldl (recompute_node g) (reset gc) [0..<m]"
  from Suc have m: "m < pg_n g" and
    ih: "fits ?c g" "gc_k ?c = gc_k gc"
        "\<forall>u<pg_n g. \<forall>b<gc_k gc. gain_cache ?c ! index gc u b = (if u < m then conn g u b else 0)"
        "\<forall>u<m. weighted_degrees ?c ! u = deg g u"
    by simp_all
  have step: "foldl (recompute_node g) (reset gc) [0..<Suc m] = recompute_node g ?c m"
    by simp
  have idx: "index ?c = index gc" using ih(2) by (simp add: fun_eq_iff index_def)
  have cache: "gain_cache (recompute_node g ?c m) ! index gc u b =
                 (if u < Suc m then conn g u b else 0)"
    if "u < pg_n g" "b < gc_k gc" for u b
  proof -
    from ih(1) that ih(2) have lt: "index gc u b < length (gain_cache ?c)"
      using index_in_cache [of ?c g u b] by (simp add: idx)
    have "gain_cache (recompute_node g ?c m) ! index gc u b =
            gain_cache ?c ! index gc u b + (if m = u then conn g u b else 0)"
      using recompute_node_cache [OF lt, of g m]
            books_entry [OF ih(1) wf m that(1), of b] that(2) ih(2)
      by (simp add: idx)
    with ih(3) that show ?thesis by auto
  qed
  have degs: "weighted_degrees (recompute_node g ?c m) ! u = deg g u" if "u < Suc m" for u
  proof -
    from ih(1) m that have "u < length (weighted_degrees ?c)" by (simp add: fits_def)
    with ih(4) that show ?thesis by (auto simp: recompute_node_degrees)
  qed
  show ?case
    unfolding step using ih(1,2) cache degs by (simp add: fits_recompute_node)
qed

lemma initialize_consistent:
  assumes "fits gc g" "wf_graph g"
  shows "fits (initialize g gc) g \<and> gc_k (initialize g gc) = gc_k gc \<and> consistent g (initialize g gc)"
  using recompute_prefix [OF assms, of "pg_n g"]
  by (simp add: initialize_def recompute_all_def consistent_def weighted_degree_to_def index_def)


lemma move_consistent:
  assumes fits: "fits gc g" and wf: "wf_graph g" and con: "consistent g gc"
    and node: "node < pg_n g" and b: "b < pg_k g"
  shows "consistent (set_block g node b) (move g gc node (pg_block g ! node) b)"
proof -
  let ?a = "pg_block g ! node"
  from wf node have a: "?a < pg_k g" by (simp add: wf_graph_def)
  from fits a b have aK: "?a < gc_k gc" and bK: "b < gc_k gc" by (simp_all add: fits_def)
  from wf node have len: "node < length (pg_block g)" by (simp add: wf_graph_def)
  have "weighted_degree_to (move g gc node ?a b) u c = conn (set_block g node b) u c"
    if u: "u < pg_n g" and c: "c < gc_k gc" for u c
  proof -
    have lt: "index gc u c < length (gain_cache gc)" by (rule index_in_cache [OF fits u c])
    from wf node u have sym: "weight_between g node u = weight_between g u node"
      by (simp add: wf_graph_def)
    from con u c have old: "gain_cache gc ! index gc u c = conn g u c"
      by (simp add: consistent_def weighted_degree_to_def)
    have "gain_cache (move g gc node ?a b) ! index gc u c =
            conn g u c - (if ?a = c then weight_between g node u else 0)
                       + (if b = c then weight_between g node u else 0)"
      unfolding move_cache [OF lt] old
        hits_entry [OF fits wf node u aK c] hits_entry [OF fits wf node u bK c] ..
    then show ?thesis
      by (simp add: weighted_degree_to_def index_def conn_set_block [OF len] sym)
  qed
  with con show ?thesis by (simp add: consistent_def)
qed

lemma moves_consistent:
  "fits gc g \<Longrightarrow> wf_graph g \<Longrightarrow> consistent g gc \<Longrightarrow> valid_moves g ms \<Longrightarrow>
   fits (snd (foldl apply_move (g, gc) ms)) (fst (foldl apply_move (g, gc) ms)) \<and>
   wf_graph (fst (foldl apply_move (g, gc) ms)) \<and>
   pg_n (fst (foldl apply_move (g, gc) ms)) = pg_n g \<and>
   pg_k (fst (foldl apply_move (g, gc) ms)) = pg_k g \<and>
   gc_k (snd (foldl apply_move (g, gc) ms)) = gc_k gc \<and>
   consistent (fst (foldl apply_move (g, gc) ms)) (snd (foldl apply_move (g, gc) ms))"
proof (induction ms arbitrary: g gc)
  case Nil
  then show ?case by simp
next
  case (Cons m ms)
  let ?g = "set_block g (fst m) (snd m)"
  let ?gc = "move g gc (fst m) (pg_block g ! fst m) (snd m)"
  from Cons.prems have m: "fst m < pg_n g" "snd m < pg_k g" and rest: "valid_moves ?g ms"
    by (simp_all add: valid_moves_def)
  have step: "apply_move (g, gc) m = (?g, ?gc)" by (simp add: apply_move_def Let_def)
  have f: "fits ?gc ?g" using Cons.prems(1) by (rule fits_move)
  have w: "wf_graph ?g" using Cons.prems(2) m by (rule wf_graph_set_block)
  have c: "consistent ?g ?gc" using Cons.prems(1,2,3) m by (rule move_consistent)
  have unroll: "foldl apply_move (g, gc) (m # ms) = foldl apply_move (?g, ?gc) ms"
    by (simp add: step)
  from Cons.IH [OF f w c rest] show ?case
    unfolding unroll by simp
qed

lemma consistent_sum:
  assumes fits: "fits gc g" and wf: "wf_graph g" and con: "consistent g gc" and u: "u < pg_n g"
  shows "(\<Sum>b<gc_k gc. weighted_degree_to gc u b) = weighted_degrees gc ! u"
proof -
  have "pg_block g ! snd ev < gc_k gc" if "ev \<in> set (pg_neighbors g u)" for ev
  proof -
    from wf u that have "snd ev < pg_n g" by (simp add: wf_graph_def)
    with wf have "pg_block g ! snd ev < pg_k g" by (simp add: wf_graph_def)
    with fits show ?thesis by (simp add: fits_def)
  qed
  then have "\<forall>ev\<in>set (pg_neighbors g u). pg_block g ! snd ev < gc_k gc" by blast
  then have "(\<Sum>b<gc_k gc. conn g u b) = deg g u" by (rule conn_sum_blocks)
  with con u show ?thesis by (simp add: consistent_def)
qed

text \<open>The totals in \<open>EdgeWeight\<close> are the integer totals modulo \<open>2 ^ w\<close>, and equal to
  them where the weights add up within the range of \<open>EdgeWeight\<close>.\<close>

lemma word_of_sint: "of_int (sint w) = (w :: 'w::len word)"
  by simp

lemma sint_of_int_in_range:
  assumes "\<bar>x\<bar> < 2 ^ (LENGTH('w::len) - 1)"
  shows "sint (of_int x :: 'w word) = x"
proof -
  from assms have "- (2 ^ (LENGTH('w) - 1)) \<le> x" "x < 2 ^ (LENGTH('w) - 1)" by simp_all
  then show ?thesis
    unfolding sint_sbintrunc' by (rule signed_take_bit_int_eq_self)
qed

lemma word_sum_of_sint:
  fixes w :: "'a \<Rightarrow> 'w::len word"
  shows "sum_list (map (\<lambda>x. if P x then w x else 0) xs) =
           of_int (sum_list (map (\<lambda>x. if P x then sint (w x) else 0) xs))"
  by (induction xs) (simp_all add: word_of_sint)

lemma abs_sum_list_le:
  fixes h :: "'a \<Rightarrow> int"
  assumes "\<And>x. x \<in> set xs \<Longrightarrow> \<bar>h x\<bar> \<le> m x"
  shows "\<bar>sum_list (map h xs)\<bar> \<le> sum_list (map m xs)"
  using assms
proof (induction xs)
  case Nil
  then show ?case by simp
next
  case (Cons x xs)
  have "\<bar>h x + sum_list (map h xs)\<bar> \<le> \<bar>h x\<bar> + \<bar>sum_list (map h xs)\<bar>" by (rule abs_triangle_ineq)
  also have "\<dots> \<le> m x + sum_list (map m xs)"
    using Cons.IH Cons.prems by (intro add_mono) simp_all
  finally show ?case by simp
qed

lemma total_weight_to_bound:
  "\<bar>total_weight_to g u b\<bar>
     \<le> sum_list (map (\<lambda>ev. \<bar>sint (pg_edge_weight g (fst ev))\<bar>) (pg_neighbors g u))"
  unfolding total_weight_to_def by (rule abs_sum_list_le) simp

lemma total_weight_bound:
  "\<bar>total_weight g u\<bar>
     \<le> sum_list (map (\<lambda>ev. \<bar>sint (pg_edge_weight g (fst ev))\<bar>) (pg_neighbors g u))"
  unfolding total_weight_def by (rule abs_sum_list_le) simp

lemma total_weight_difference_bound:
  "\<bar>total_weight_to g u b - total_weight_to g u a\<bar>
     \<le> sum_list (map (\<lambda>ev. \<bar>sint (pg_edge_weight g (fst ev))\<bar>) (pg_neighbors g u))"
proof -
  have "total_weight_to g u b - total_weight_to g u a =
          sum_list (map (\<lambda>ev. (if pg_block g ! snd ev = b then sint (pg_edge_weight g (fst ev)) else 0)
                             - (if pg_block g ! snd ev = a then sint (pg_edge_weight g (fst ev)) else 0))
                        (pg_neighbors g u))"
    unfolding total_weight_to_def by (simp add: sum_list_subtractf)
  also have "\<bar>\<dots>\<bar> \<le> sum_list (map (\<lambda>ev. \<bar>sint (pg_edge_weight g (fst ev))\<bar>) (pg_neighbors g u))"
    by (rule abs_sum_list_le) simp
  finally show ?thesis .
qed

lemma conn_of_total: "conn g u b = of_int (total_weight_to g u b)"
  unfolding conn_def total_weight_to_def by (rule word_sum_of_sint)

lemma deg_of_total: "deg g u = of_int (total_weight g u)"
proof -
  have "sum_list (map (\<lambda>ev. if True then pg_edge_weight g (fst ev) else 0) (pg_neighbors g u)) =
        of_int (sum_list (map (\<lambda>ev. if True then sint (pg_edge_weight g (fst ev)) else 0)
                              (pg_neighbors g u)))"
    by (rule word_sum_of_sint)
  then show ?thesis by (simp add: deg_def total_weight_def)
qed

lemma in_range_readings:
  fixes g :: "'w::len partitioned_graph"
  assumes "weights_in_range g u"
  shows "sint (conn g u b) = total_weight_to g u b"
    and "sint (deg g u) = total_weight g u"
    and "sint (conn g u b - conn g u a) = total_weight_to g u b - total_weight_to g u a"
proof -
  let ?m = "sum_list (map (\<lambda>ev. \<bar>sint (pg_edge_weight g (fst ev))\<bar>) (pg_neighbors g u))"
  from assms have m: "?m < 2 ^ (LENGTH('w) - 1)" by (simp add: weights_in_range_def)
  from total_weight_to_bound [of g u b] m
  have "\<bar>total_weight_to g u b\<bar> < 2 ^ (LENGTH('w) - 1)" by simp
  then show "sint (conn g u b) = total_weight_to g u b"
    unfolding conn_of_total by (rule sint_of_int_in_range)
  from total_weight_bound [of g u] m have "\<bar>total_weight g u\<bar> < 2 ^ (LENGTH('w) - 1)" by simp
  then show "sint (deg g u) = total_weight g u"
    unfolding deg_of_total by (rule sint_of_int_in_range)
  from total_weight_difference_bound [of g u b a] m
  have "\<bar>total_weight_to g u b - total_weight_to g u a\<bar> < 2 ^ (LENGTH('w) - 1)" by simp
  then have "sint (of_int (total_weight_to g u b - total_weight_to g u a) :: 'w word) =
               total_weight_to g u b - total_weight_to g u a"
    by (rule sint_of_int_in_range)
  then show "sint (conn g u b - conn g u a) = total_weight_to g u b - total_weight_to g u a"
    by (simp add: conn_of_total)
qed

lemma total_weight_sum_blocks:
  assumes "\<forall>ev\<in>set (pg_neighbors g u). pg_block g ! snd ev < K"
  shows "(\<Sum>b<K. total_weight_to g u b) = total_weight g u"
proof -
  have "\<forall>ev\<in>set es. pg_block g ! snd ev < K \<Longrightarrow>
        (\<Sum>b<K. sum_list (map (\<lambda>ev. if pg_block g ! snd ev = b
                                      then sint (pg_edge_weight g (fst ev)) else 0) es)) =
        sum_list (map (\<lambda>ev. sint (pg_edge_weight g (fst ev))) es)" for es
    by (induction es) (simp_all add: sum.distrib)
  with assms show ?thesis by (simp add: total_weight_to_def total_weight_def)
qed

lemma weights_in_range_moves:
  "weights_in_range (fst (foldl apply_move (g, gc) ms)) u = weights_in_range g u"
proof (induction ms arbitrary: g gc)
  case Nil
  then show ?case by simp
next
  case (Cons m ms)
  have step: "foldl apply_move (g, gc) (m # ms) =
                foldl apply_move (set_block g (fst m) (snd m),
                                  move g gc (fst m) (pg_block g ! fst m) (snd m)) ms"
    by (simp add: apply_move_def Let_def)
  show ?case unfolding step Cons.IH by (simp add: weights_in_range_def)
qed

text \<open>
  Claim C4, as the code decides it.  Let the cache have been constructed for at least the
  nodes and the blocks of a well-formed partitioned graph (symmetric edge list, every
  neighbour and every block in range), with fewer than \<open>2 ^ 32\<close> entries; let it be
  initialised on the graph, and let any sequence of valid moves be applied to the
  partition and mirrored in the cache by \<open>move\<close>.  Then for every node \<open>u\<close>, in the
  arithmetic of \<open>EdgeWeight\<close>, the cached weighted degrees to all blocks sum up to
  \<open>deg[u]\<close>, which is the weighted degree of \<open>u\<close>; every entry \<open>wdeg[u, b]\<close> is the total
  weight of the edges from \<open>u\<close> to neighbours currently in block \<open>b\<close>; and
  \<open>gain(u, a, b) = wdeg[u, b] - wdeg[u, a]\<close>.  For a node whose edge weights add up
  within the range of \<open>EdgeWeight\<close>, the same equations hold between the signed values
  and the integer totals.
\<close>

theorem gain_cache_invariant:
  fixes g :: "'w::len partitioned_graph"
  assumes "wf_graph g" and "fits gc g" and "valid_moves g ms"
    and "foldl apply_move (g, initialize g gc) ms = (g', gc')"
    and "u < pg_n g"
  shows "(\<Sum>b<gc_k gc'. weighted_degree_to gc' u b) = weighted_degrees gc' ! u \<and>
         weighted_degrees gc' ! u = deg g' u \<and>
         (\<forall>b<gc_k gc'. weighted_degree_to gc' u b = conn g' u b) \<and>
         (\<forall>a b. gain gc' u a b = weighted_degree_to gc' u b - weighted_degree_to gc' u a) \<and>
         (weights_in_range g u \<longrightarrow>
            (\<Sum>b<gc_k gc'. sint (weighted_degree_to gc' u b)) = sint (weighted_degrees gc' ! u) \<and>
            sint (weighted_degrees gc' ! u) = total_weight g' u \<and>
            (\<forall>b<gc_k gc'. sint (weighted_degree_to gc' u b) = total_weight_to g' u b) \<and>
            (\<forall>a<gc_k gc'. \<forall>b<gc_k gc'.
               sint (gain gc' u a b) =
                 sint (weighted_degree_to gc' u b) - sint (weighted_degree_to gc' u a)))"
proof -
  from initialize_consistent [OF assms(2,1)]
  have i: "fits (initialize g gc) g" "consistent g (initialize g gc)" by simp_all
  from moves_consistent [OF i(1) assms(1) i(2) assms(3)] assms(4)
  have f: "fits gc' g'" and w: "wf_graph g'" and n: "pg_n g' = pg_n g" and c: "consistent g' gc'"
    by simp_all
  from assms(5) n have u: "u < pg_n g'" by simp
  from c u have d: "weighted_degrees gc' ! u = deg g' u"
    and e: "\<And>b. b < gc_k gc' \<Longrightarrow> weighted_degree_to gc' u b = conn g' u b"
    by (simp_all add: consistent_def)
  have words: "(\<Sum>b<gc_k gc'. weighted_degree_to gc' u b) = weighted_degrees gc' ! u \<and>
         weighted_degrees gc' ! u = deg g' u \<and>
         (\<forall>b<gc_k gc'. weighted_degree_to gc' u b = conn g' u b) \<and>
         (\<forall>a b. gain gc' u a b = weighted_degree_to gc' u b - weighted_degree_to gc' u a)"
    using consistent_sum [OF f w c u] d e by (simp add: gain_def)
  have ints: "(\<Sum>b<gc_k gc'. sint (weighted_degree_to gc' u b)) = sint (weighted_degrees gc' ! u) \<and>
            sint (weighted_degrees gc' ! u) = total_weight g' u \<and>
            (\<forall>b<gc_k gc'. sint (weighted_degree_to gc' u b) = total_weight_to g' u b) \<and>
            (\<forall>a<gc_k gc'. \<forall>b<gc_k gc'.
               sint (gain gc' u a b) =
                 sint (weighted_degree_to gc' u b) - sint (weighted_degree_to gc' u a))"
    if "weights_in_range g u"
  proof -
    from weights_in_range_moves [of g "initialize g gc" ms u] assms(4) that
    have r: "weights_in_range g' u" by simp
    note rd = in_range_readings [OF r]
    have blocks: "\<forall>ev\<in>set (pg_neighbors g' u). pg_block g' ! snd ev < gc_k gc'"
    proof
      fix ev assume "ev \<in> set (pg_neighbors g' u)"
      with w u have "snd ev < pg_n g'" by (simp add: wf_graph_def)
      with w have "pg_block g' ! snd ev < pg_k g'" by (simp add: wf_graph_def)
      with f show "pg_block g' ! snd ev < gc_k gc'" by (simp add: fits_def)
    qed
    have entry: "sint (weighted_degree_to gc' u b) = total_weight_to g' u b"
      if "b < gc_k gc'" for b
      using e [OF that] rd(1) by simp
    have "(\<Sum>b<gc_k gc'. sint (weighted_degree_to gc' u b)) = (\<Sum>b<gc_k gc'. total_weight_to g' u b)"
      by (rule sum.cong) (simp_all add: entry)
    also have "\<dots> = total_weight g' u" by (rule total_weight_sum_blocks [OF blocks])
    finally have total: "(\<Sum>b<gc_k gc'. sint (weighted_degree_to gc' u b)) = total_weight g' u" .
    have deg': "sint (weighted_degrees gc' ! u) = total_weight g' u"
      unfolding d by (rule rd(2))
    have gains: "sint (gain gc' u a b) =
                   sint (weighted_degree_to gc' u b) - sint (weighted_degree_to gc' u a)"
      if "a < gc_k gc'" "b < gc_k gc'" for a b
      unfolding gain_def e [OF that(1)] e [OF that(2)] rd(1) by (rule rd(3))
    from total deg' entry gains show ?thesis by simp
  qed
  from words ints show ?thesis by blast
qed

lemma upt_4: "[0..<4] = [0, 1, 2, 3]"
  by (simp add: upt_rec)

lemma upt_8: "[0..<8] = [0, 1, 2, 3, 4, 5, 6, 7]"
  by (simp add: upt_rec)

lemma all_less_4: "(\<forall>u<4::nat. P u) \<longleftrightarrow> P 0 \<and> P 1 \<and> P 2 \<and> P 3"
proof -
  have "u < 4 \<longleftrightarrow> u = 0 \<or> u = 1 \<or> u = 2 \<or> u = 3" for u :: nat by arith
  then show ?thesis by auto
qed

lemmas path4_evals =
  path4_cache_def path4_def initialize_def recompute_all_def recompute_node_def
  recompute_edge_def reset_def DenseGainCache_def index_def add_at_def move_def move_edge_def
  gain_def weighted_degree_to_def upt_4 upt_8

lemma path4_wf: "wf_graph path4"
  by (simp add: wf_graph_def all_less_4 weight_between_def path4_def)

lemma path4_fits: "fits (DenseGainCache 2 4 (\<lambda>i. 77)) path4"
  by (simp add: fits_def DenseGainCache_def path4_def)

lemma path4_cache_after_initialize: "gain_cache path4_cache = [0, 1, 1, 1, 1, 1, 0, 1]"
  by (simp add: path4_evals)

lemma path4_cache_after_move:
  "gain_cache (move path4 path4_cache 1 1 0) = [1, 0, 1, 1, 2, 0, 0, 1]"
  by (simp add: path4_evals)

theorem gain_cache_invariant_witness:
  "wf_graph path4 \<and> fits (DenseGainCache 2 4 (\<lambda>i. 77)) path4 \<and>
   valid_moves path4 [(1, 0)] \<and> (2::nat) < pg_n path4 \<and> weights_in_range path4 2 \<and>
   weighted_degree_to (move path4 path4_cache 1 1 0) 2 0
     + weighted_degree_to (move path4 path4_cache 1 1 0) 2 1 = 2 \<and>
   weighted_degree_to (move path4 path4_cache 1 1 0) 2 0 = conn (set_block path4 1 0) 2 0 \<and>
   conn (set_block path4 1 0) 2 0 = 2 \<and>
   sint (weighted_degree_to (move path4 path4_cache 1 1 0) 2 0) = 2 \<and>
   total_weight_to (set_block path4 1 0) 2 0 = 2"
proof -
  have v: "valid_moves path4 [(1, 0)]" by (simp add: valid_moves_def path4_def)
  have u: "(2::nat) < pg_n path4" by (simp add: path4_def)
  have r: "weights_in_range path4 2" by (simp add: weights_in_range_def path4_def)
  have run: "foldl apply_move (path4, initialize path4 (DenseGainCache 2 4 (\<lambda>i. 77))) [(1, 0)] =
               (set_block path4 1 0, move path4 path4_cache 1 1 0)"
    by (simp add: apply_move_def Let_def path4_cache_def) (simp add: path4_def)
  have k: "gc_k path4_cache = 2"
    by (simp add: path4_evals)
  have two: "{..<2::nat} = {0, 1}" by auto
  have c: "conn (set_block path4 1 0) 2 0 = 2" "conn (set_block path4 1 0) 2 1 = 0"
    by (simp_all add: conn_def set_block_def path4_def)
  have t: "total_weight_to (set_block path4 1 0) 2 0 = 2"
    by (simp add: total_weight_to_def set_block_def path4_def)
  from gain_cache_invariant [OF path4_wf path4_fits v run u] path4_wf path4_fits v u r c t
  show ?thesis by (simp add: k two)
qed

text \<open>
  The claim fails for a cache that was constructed for fewer blocks than the graph has,
  although the assertion of \<open>initialize\<close> lets it pass: with \<open>_k = 1\<close> and \<open>_n = 8\<close> the
  entries of \<open>(0, 1)\<close> and \<open>(1, 0)\<close> are one and the same, and \<open>wdeg[0, 1]\<close> is 2 on the
  path, where node 0 has one neighbour in block 1.  It fails where the weights of a node
  do not add up within \<open>EdgeWeight\<close>: two edges of weight \<open>2 ^ 30\<close> into block 1 give
  the 32-bit entry \<open>- 2 ^ 31\<close>.  A cache for fewer nodes passes the assertion as well,
  with \<open>_k = 4\<close> and \<open>_n = 2\<close> on the path, and the entry of \<open>(3, 1)\<close> lies behind the
  end of the array.  And for \<open>2 ^ 20\<close> nodes and \<open>2 ^ 12\<close> blocks the 32-bit product
  \<open>_n * _k\<close> is 0: the assertion passes and the array has no entry at all.
\<close>

theorem gain_cache_claim_counterexample:
  "\<not> too_small (DenseGainCache 1 8 (\<lambda>i. 77)) path4 \<and>
   weighted_degree_to (initialize path4 (DenseGainCache 1 8 (\<lambda>i. 77))) 0 1 = 2 \<and>
   conn path4 0 1 = 1 \<and>
   wf_graph heavy2 \<and> fits (DenseGainCache 2 2 (\<lambda>i. 77)) heavy2 \<and>
   sint (weighted_degree_to (initialize heavy2 (DenseGainCache 2 2 (\<lambda>i. 77))) 0 1)
     = - 2147483648 \<and>
   total_weight_to heavy2 0 1 = 2147483648 \<and>
   \<not> too_small (DenseGainCache 4 2 (\<lambda>i. 77)) path4 \<and>
   length (gain_cache (DenseGainCache 4 2 (\<lambda>i. 77) :: 32 dense_gain_cache))
     \<le> index (DenseGainCache 4 2 (\<lambda>i. 77) :: 32 dense_gain_cache) 3 1 \<and>
   \<not> too_small (DenseGainCache 4096 1048576 (\<lambda>i. 77)) wide_graph \<and>
   gain_cache (DenseGainCache 4096 1048576 (\<lambda>i. 77) :: 32 dense_gain_cache) = []"
proof -
  have a: "\<not> too_small (DenseGainCache 1 8 (\<lambda>i. 77)) path4"
    by (simp add: too_small_def DenseGainCache_def path4_def)
  have b: "weighted_degree_to (initialize path4 (DenseGainCache 1 8 (\<lambda>i. 77))) 0 1 = 2"
    by (simp add: path4_def initialize_def recompute_all_def recompute_node_def
        recompute_edge_def reset_def DenseGainCache_def index_def add_at_def
        weighted_degree_to_def upt_4 upt_8)
  have c: "conn path4 0 1 = 1" by (simp add: conn_def path4_def)
  have two: "(\<forall>u<2::nat. P u) \<longleftrightarrow> P 0 \<and> P 1" for P
  proof -
    have "u < 2 \<longleftrightarrow> u = 0 \<or> u = 1" for u :: nat by arith
    then show ?thesis by auto
  qed
  have d: "wf_graph heavy2" by (simp add: wf_graph_def two weight_between_def heavy2_def)
  have e: "fits (DenseGainCache 2 2 (\<lambda>i. 77)) heavy2"
    by (simp add: fits_def DenseGainCache_def heavy2_def)
  have upt_2: "[0..<2] = [0, 1]" by (simp add: upt_rec)
  have f: "weighted_degree_to (initialize heavy2 (DenseGainCache 2 2 (\<lambda>i. 77))) 0 1 = 2147483648"
    by (simp add: heavy2_def initialize_def recompute_all_def recompute_node_def
        recompute_edge_def reset_def DenseGainCache_def index_def add_at_def
        weighted_degree_to_def upt_4 upt_2)
  have g: "sint (2147483648 :: 32 word) = - 2147483648" by simp
  have h: "total_weight_to heavy2 0 1 = 2147483648"
    by (simp add: total_weight_to_def heavy2_def)
  have i: "\<not> too_small (DenseGainCache 4 2 (\<lambda>i. 77)) path4"
    by (simp add: too_small_def DenseGainCache_def path4_def)
  have j: "length (gain_cache (DenseGainCache 4 2 (\<lambda>i. 77) :: 32 dense_gain_cache))
             \<le> index (DenseGainCache 4 2 (\<lambda>i. 77) :: 32 dense_gain_cache) 3 1"
    by (simp add: DenseGainCache_def index_def)
  have k: "\<not> too_small (DenseGainCache 4096 1048576 (\<lambda>i. 77)) wide_graph"
    by (simp add: too_small_def DenseGainCache_def wide_graph_def)
  have l: "gain_cache (DenseGainCache 4096 1048576 (\<lambda>i. 77) :: 32 dense_gain_cache) = []"
    by (simp add: DenseGainCache_def)
  from a b c d e f g h i j k l show ?thesis by simp
qed

text \<open>
  Claim C2, as the code computes it.  On the path 0 - 1 - 2 - 3 with unit weights and
  partition \<open>[0, 1, 1, 0]\<close> the cache holds \<open>wdeg[0,0] = 0\<close>, \<open>wdeg[0,1] = 1\<close>,
  \<open>wdeg[1,0] = 1\<close>, \<open>wdeg[1,1] = 1\<close> after \<open>initialize\<close>; after \<open>move(1, 1 \<rightarrow> 0)\<close> it holds
  \<open>wdeg[0,1] = 0\<close>, \<open>wdeg[0,0] = 1\<close>, \<open>wdeg[2,1] = 0\<close> and \<open>wdeg[2,0] = 2\<close> (node 2 now has
  both neighbours, 1 and 3, in block 0), and \<open>gain(2, 1, 0) = 2\<close>.
\<close>

theorem path4_gain_cache_values:
  "weighted_degree_to path4_cache 0 0 = 0 \<and> weighted_degree_to path4_cache 0 1 = 1 \<and>
   weighted_degree_to path4_cache 1 0 = 1 \<and> weighted_degree_to path4_cache 1 1 = 1 \<and>
   weighted_degree_to (move path4 path4_cache 1 1 0) 0 1 = 0 \<and>
   weighted_degree_to (move path4 path4_cache 1 1 0) 0 0 = 1 \<and>
   weighted_degree_to (move path4 path4_cache 1 1 0) 2 1 = 0 \<and>
   weighted_degree_to (move path4 path4_cache 1 1 0) 2 0 = 2 \<and>
   gain (move path4 path4_cache 1 1 0) 2 1 0 = 2"
  by (simp add: path4_evals)

text \<open>The values the claim states for node 2 after the move, \<open>wdeg[2,0] = 1\<close> and
  \<open>gain(2, 1, 0) = 1\<close>, are not the ones the code computes.\<close>

theorem path4_claimed_values_counterexample:
  "weighted_degree_to (move path4 path4_cache 1 1 0) 2 0 \<noteq> 1 \<and>
   gain (move path4 path4_cache 1 1 0) 2 1 0 \<noteq> 1"
  by (simp add: path4_evals)

section \<open>FastResetArray: what \<open>exists\<close> reports\<close>

lemma exists_fresh: "pos < cap \<Longrightarrow> exists dv (FastResetArray dv cap) pos"
  by (simp add: exists_def FastResetArray_def)

lemma get_set_entry: "pos < capacity a \<Longrightarrow> get (set_entry dv a pos v) pos = v"
  by (simp add: get_def set_entry_def subscript_def capacity_def Let_def)

text \<open>
  Claim C8.  For a position below the capacity, \<open>exists\<close> is true if and only if the
  stored value equals \<open>Value()\<close>: it is true on a fresh array, it is false once the entry
  has been set to a value other than \<open>Value()\<close>, and true again when \<open>Value()\<close> is stored
  there.
\<close>

theorem exists_iff_default:
  assumes "pos < capacity a"
  shows "(exists dv a pos \<longleftrightarrow> get a pos = dv) \<and>
         (exists dv (set_entry dv a pos v) pos \<longleftrightarrow> v = dv) \<and>
         exists dv (FastResetArray dv (capacity a)) pos"
  using assms
  by (simp add: exists_def get_def set_entry_def subscript_def capacity_def Let_def
      FastResetArray_def)

theorem exists_iff_default_witness:
  "(1::nat) < capacity (FastResetArray (0::int) 3) \<and>
   exists 0 (FastResetArray (0::int) 3) 1 \<and>
   get (FastResetArray (0::int) 3) 1 = 0 \<and>
   \<not> exists 0 (set_entry 0 (FastResetArray (0::int) 3) 1 5) 1 \<and>
   get (set_entry 0 (FastResetArray (0::int) 3) 1 5) 1 = 5"
proof -
  have c: "(1::nat) < capacity (FastResetArray (0::int) 3)"
    by (simp add: capacity_def FastResetArray_def)
  have g: "get (FastResetArray (0::int) 3) 1 = 0"
    by (simp add: get_def FastResetArray_def)
  from exists_iff_default [OF c, of 0 5] c g get_set_entry [OF c, of 0 5]
  show ?thesis by simp
qed

section \<open>Label propagation refiner: the weight constraint of \<open>accept_cluster\<close>\<close>

lemma accept_cluster_split:
  "accept_cluster mcw st \<longleftrightarrow>
     preferred mcw st \<and>
     (current_cluster_weight st + u_weight st < mcw (current_cluster st) \<or>
      current_cluster_weight st - mcw (current_cluster st)
        < initial_cluster_weight st - mcw (initial_cluster st) \<or>
      current_cluster st = initial_cluster st)"
  by (simp add: accept_cluster_def preferred_def Let_def)

text \<open>
  Claim C3, as the code decides it.  A candidate that is preferred by gain is accepted
  whenever the resulting weight of the target block stays strictly below the cap of that
  block.  A move that brings the target block to its cap or above is refused unless the
  signed overload of the target block (its weight before the move minus its cap, negative
  below the cap) is smaller than the signed initial overload of the source block of \<open>u\<close>
  (its initial weight minus its cap), or the target block is the initial block of \<open>u\<close>;
  and a preferred candidate in one of these two cases is accepted.
\<close>

theorem accept_cluster_weight_constraint:
  "(preferred mcw st \<and>
      current_cluster_weight st + u_weight st < mcw (current_cluster st)
        \<longrightarrow> accept_cluster mcw st) \<and>
   (mcw (current_cluster st) \<le> current_cluster_weight st + u_weight st \<and>
      \<not> current_cluster_weight st - mcw (current_cluster st)
          < initial_cluster_weight st - mcw (initial_cluster st) \<and>
      current_cluster st \<noteq> initial_cluster st
        \<longrightarrow> \<not> accept_cluster mcw st) \<and>
   (preferred mcw st \<and>
      (current_cluster_weight st - mcw (current_cluster st)
         < initial_cluster_weight st - mcw (initial_cluster st) \<or>
       current_cluster st = initial_cluster st)
        \<longrightarrow> accept_cluster mcw st)"
  by (auto simp: accept_cluster_split)

theorem accept_cluster_weight_constraint_witness:
  "preferred (\<lambda>b. 4) (to_the_cap\<lparr>current_cluster_weight := 2\<rparr>) \<and>
   accept_cluster (\<lambda>b. 4) (to_the_cap\<lparr>current_cluster_weight := 2\<rparr>) \<and>
   \<not> accept_cluster (\<lambda>b. 4) to_the_cap \<and>
   preferred (\<lambda>b. 4) repair_move \<and>
   accept_cluster (\<lambda>b. 4) repair_move"
proof -
  have p: "preferred (\<lambda>b. 4) (to_the_cap\<lparr>current_cluster_weight := 2\<rparr>)"
          "preferred (\<lambda>b. 4) repair_move"
    by (simp_all add: preferred_def to_the_cap_def repair_move_def)
  from accept_cluster_weight_constraint [of "\<lambda>b. 4" "to_the_cap\<lparr>current_cluster_weight := 2\<rparr>"]
       accept_cluster_weight_constraint [of "\<lambda>b. 4" to_the_cap]
       accept_cluster_weight_constraint [of "\<lambda>b. 4" repair_move] p
  show ?thesis by (simp add: to_the_cap_def repair_move_def)
qed

text \<open>The claim itself fails in both halves.  Where the move fills the target block
  exactly to its cap, the candidate is preferred and the resulting weight \<open>3 + 1\<close> does
  not exceed the cap \<open>4\<close>, and the move is refused.  Where the target block has more room
  before the move than the source block, the move is accepted although it takes the
  target from 7 to 12 above its cap 10, the source block was never overloaded (9 under
  its cap 10) and the target is not the initial block.\<close>

theorem accept_cluster_counterexample:
  "preferred (\<lambda>b. 4) to_the_cap \<and>
   current_cluster_weight to_the_cap + u_weight to_the_cap \<le> 4 \<and>
   \<not> accept_cluster (\<lambda>b. 4) to_the_cap \<and>
   10 < current_cluster_weight slack_move + u_weight slack_move \<and>
   initial_cluster_weight slack_move \<le> 10 \<and>
   current_cluster slack_move \<noteq> initial_cluster slack_move \<and>
   accept_cluster (\<lambda>b. 10) slack_move"
  by (simp add: accept_cluster_def preferred_def to_the_cap_def slack_move_def)

section \<open>JET filter phase: the tie-break between two proposing neighbours\<close>

text \<open>
  Claim C5, as the code decides it.  Two distinct nodes whose identifiers both come from
  the numbering of one process: exactly one of them treats the other as moved.  An owned
  node and a ghost node of equal gain: the owned node never treats the ghost as moved,
  because every ghost identifier is above every owned identifier.
\<close>

theorem tie_break_one_numbering:
  "(u \<noteq> v \<longrightarrow> treats_as_moved s u v \<noteq> treats_as_moved s v u) \<and>
   (u < jv_n s \<and> jv_n s \<le> v \<and> fst (gains_and_targets s ! v) = fst (gains_and_targets s ! u)
      \<longrightarrow> \<not> treats_as_moved s u v)"
  by (auto simp: treats_as_moved_def Let_def)

theorem tie_break_one_numbering_witness:
  "(0::nat) \<noteq> 1 \<and> \<not> treats_as_moved view_shared 0 1 \<and> treats_as_moved view_shared 1 0 \<and>
   locked (filter_bad_moves view_shared) = [True, False] \<and>
   (0::nat) < jv_n view_of_pe0 \<and> jv_n view_of_pe0 \<le> 1 \<and>
   fst (gains_and_targets view_of_pe0 ! 1) = fst (gains_and_targets view_of_pe0 ! 0) \<and>
   \<not> treats_as_moved view_of_pe0 0 1"
proof -
  have f: "\<not> treats_as_moved view_shared 0 1"
    by (simp add: treats_as_moved_def view_shared_def)
  have l: "locked (filter_bad_moves view_shared) = [True, False]"
    by (simp add: filter_bad_moves_def filter_node_def project_edge_def projected_block_def
        treats_as_moved_def view_shared_def upt_rec)
  have g: "(0::nat) < jv_n view_of_pe0" "jv_n view_of_pe0 \<le> 1"
    "fst (gains_and_targets view_of_pe0 ! 1) = fst (gains_and_targets view_of_pe0 ! 0)"
    by (simp_all add: view_of_pe0_def)
  from tie_break_one_numbering [of 0 1 view_shared]
       tie_break_one_numbering [of 0 1 view_of_pe0] f l g
  show ?thesis by auto
qed

text \<open>Across two processes the claim fails: with equal gains neither of the two
  neighbouring nodes treats the other as moved, and both moves pass the filter.\<close>

theorem tie_break_across_processes_counterexample:
  "\<not> treats_as_moved view_of_pe0 0 1 \<and> \<not> treats_as_moved view_of_pe1 0 1 \<and>
   locked (filter_bad_moves view_of_pe0) = [True] \<and>
   locked (filter_bad_moves view_of_pe1) = [True]"
  by (simp add: filter_bad_moves_def filter_node_def project_edge_def projected_block_def
      treats_as_moved_def view_of_pe0_def view_of_pe1_def)

section \<open>JET refiner: return value, stopping rule and rollback of \<open>refine\<close>\<close>

lemma bit_length_nonneg: "0 \<le> bit_length a"
proof (induction a rule: bit_length.induct)
  case (1 a)
  then show ?case by (subst bit_length.simps) simp
qed

lemma bit_length_le: "a < 2 ^ k \<Longrightarrow> bit_length a \<le> int k"
proof (induction k arbitrary: a)
  case 0
  then show ?case by (subst bit_length.simps) simp
next
  case (Suc k)
  show ?case
  proof (cases "a \<le> 0")
    case True
    then show ?thesis by (subst bit_length.simps) simp
  next
    case False
    from Suc.prems have "a div 2 < 2 ^ k" by simp
    from Suc.IH [OF this] False show ?thesis by (subst bit_length.simps) simp
  qed
qed

text \<open>A number of at most 53 binary digits, times a power of two within the range of
  the exponent, is a double.\<close>

lemma round_double_exact:
  assumes "\<bar>m\<bar> < 2 ^ 53" and "- 1074 \<le> e" and "e \<le> 971"
  shows "round_double m e = Finite m e"
proof -
  define a where "a = \<bar>m\<bar>"
  from bit_length_le [OF assms(1)] have b: "bit_length a \<le> 53" by (simp add: a_def)
  with assms(2) have s: "max (bit_length a - 53) (- 1074 - e) \<le> 0" by simp
  from b assms(3) have o: "\<not> bit_length a + e > 1024" by simp
  have sign: "(if m < 0 then - a else a) = m" by (simp add: a_def)
  show ?thesis
    unfolding round_double_def Let_def a_def [symmetric] using s o sign
    by (auto split: if_splits)
qed

lemma bit_length_pos:
  "0 < a \<Longrightarrow> 1 \<le> bit_length a \<and> 2 ^ nat (bit_length a - 1) \<le> a"
proof (induction a rule: bit_length.induct)
  case (1 a)
  then have unfold: "bit_length a = 1 + bit_length (a div 2)"
    by (subst bit_length.simps) simp
  show ?case
  proof (cases "a div 2 = 0")
    case True
    then have "bit_length (a div 2) = 0" by (subst bit_length.simps) simp
    with unfold "1.prems" show ?thesis by simp
  next
    case False
    with "1.prems" have pos: "0 < a div 2" by simp
    from "1.prems" have "\<not> a \<le> 0" by simp
    from "1.IH" [OF this pos] have one: "1 \<le> bit_length (a div 2)"
      and low: "2 ^ nat (bit_length (a div 2) - 1) \<le> a div 2"
      by simp_all
    from one have "nat (bit_length (a div 2)) = Suc (nat (bit_length (a div 2) - 1))" by simp
    then have "(2::int) ^ nat (bit_length (a div 2)) = 2 * 2 ^ nat (bit_length (a div 2) - 1)"
      by simp
    also have "\<dots> \<le> 2 * (a div 2)" using low by simp
    also have "\<dots> \<le> a" by simp
    finally show ?thesis using one by (simp add: unfold)
  qed
qed

text \<open>Converting an integer to \<open>double\<close> keeps its sign.\<close>

lemma double_of_int_sign:
  "dgt (double_of_int x) (Finite 0 f) \<longleftrightarrow> 0 < x"
proof (cases "x = 0")
  case True
  have "round_double 0 0 = Finite 0 0" by (rule round_double_exact) simp_all
  with True show ?thesis by (simp add: double_of_int_def)
next
  case False
  define a where "a = \<bar>x\<bar>"
  define s where "s = max (bit_length a - 53) (- 1074 - 0)"
  define q where "q = (if s \<le> 0 then a
               else let d = 2 ^ nat s; q = a div d; r = a mod d
                    in if 2 * r > d \<or> (2 * r = d \<and> odd q) then q + 1 else q)"
  from False have a: "0 < a" by (simp add: a_def)
  have q: "0 < q"
  proof (cases "s \<le> 0")
    case True
    with a show ?thesis by (simp add: q_def)
  next
    case False
    with bit_length_nonneg [of a] have s: "s = bit_length a - 53" "0 < s"
      by (simp_all add: s_def)
    from bit_length_pos [OF a] have low: "(2::int) ^ nat (bit_length a - 1) \<le> a" by simp
    from s have le: "nat s \<le> nat (bit_length a - 1)" by simp
    have "(2::int) ^ nat s \<le> 2 ^ nat (bit_length a - 1)"
      by (rule power_increasing [OF le]) simp
    from this low have "(2::int) ^ nat s \<le> a" by (rule order_trans)
    with pos_imp_zdiv_pos_iff [of "2 ^ nat s" a] have "0 < a div 2 ^ nat s" by simp
    then have "1 \<le> a div 2 ^ nat s" by simp
    then show ?thesis using False by (simp add: q_def Let_def)
  qed
  have r: "round_double x 0 =
             (if q \<noteq> 0 \<and> bit_length q + (if s \<le> 0 then 0 else 0 + s) > 1024
              then Infinity (x < 0)
              else Finite (if x < 0 then - q else q) (if s \<le> 0 then 0 else 0 + s))"
    unfolding round_double_def Let_def a_def [symmetric] s_def [symmetric]
    unfolding q_def Let_def by simp
  have pow: "0 < (2::int) ^ n" for n by simp
  show ?thesis
    unfolding double_of_int_def r using q False
    by (auto simp: Let_def zero_less_mult_iff mult_less_0_iff)
qed

lemma round_double_zero: "\<exists>f. round_double 0 e = Finite 0 f"
proof -
  have b: "bit_length 0 = 0" by (subst bit_length.simps) simp
  show ?thesis by (simp add: round_double_def Let_def b)
qed

text \<open>An integer of at most 64 binary digits is converted to a finite \<open>double\<close>.\<close>

lemma double_of_int_finite:
  assumes "\<bar>x\<bar> < 2 ^ 63"
  shows "\<exists>q e. double_of_int x = Finite q e"
proof -
  define a where "a = \<bar>x\<bar>"
  define s where "s = max (bit_length a - 53) (- 1074 - 0)"
  define q where "q = (if s \<le> 0 then a
               else let d = 2 ^ nat s; q = a div d; r = a mod d
                    in if 2 * r > d \<or> (2 * r = d \<and> odd q) then q + 1 else q)"
  from assms have a: "0 \<le> a" "a < 2 ^ 63" by (simp_all add: a_def)
  from bit_length_le [OF a(2)] have ba: "bit_length a \<le> 63" by simp
  then have s: "s \<le> 10" by (simp add: s_def)
  have "a div 2 ^ nat s \<le> a div 1" using a(1) by (intro zdiv_mono2) simp_all
  then have "a div 2 ^ nat s \<le> a" by simp
  then have "q \<le> a + 1" by (simp add: q_def Let_def)
  with a(2) have "q < 2 ^ 64" by simp
  from bit_length_le [OF this] have bq: "bit_length q \<le> 64" by simp
  have r: "round_double x 0 =
             (if q \<noteq> 0 \<and> bit_length q + (if s \<le> 0 then 0 else 0 + s) > 1024
              then Infinity (x < 0)
              else Finite (if x < 0 then - q else q) (if s \<le> 0 then 0 else 0 + s))"
    unfolding round_double_def Let_def a_def [symmetric] s_def [symmetric]
    unfolding q_def Let_def by simp
  from s bq have "\<not> bit_length q + (if s \<le> 0 then 0 else 0 + s) > 1024" by simp
  then show ?thesis unfolding double_of_int_def r by simp
qed

text \<open>With \<open>fruitless_threshold = 1.0\<close> the right-hand side of the test is zero, and
  every pass that lowers the cut counts as an improvement.\<close>

lemma improved_threshold_one:
  assumes "fruitless_threshold ctx = Finite 1 0" and "\<bar>best\<bar> < 2 ^ 63"
  shows "improved ctx best final \<longleftrightarrow> final < best"
proof -
  have "round_double 0 0 = Finite 0 0" by (rule round_double_exact) simp_all
  then have sub: "dsub (Finite 1 0) (Finite 1 0) = Finite 0 0" by simp
  from double_of_int_finite [OF assms(2)] obtain q e where b: "double_of_int best = Finite q e"
    by blast
  from round_double_zero [of "0 + e"] obtain f where "round_double 0 (0 + e) = Finite 0 f" ..
  then have mul: "dmul (Finite 0 0) (double_of_int best) = Finite 0 f" by (simp add: b)
  show ?thesis
    unfolding improved_def assms(1) sub mul double_of_int_sign by auto
qed

lemma loop_body_iteration [simp]:
  "cur_iteration (loop_body edge_cut pass ctx s) = cur_iteration s + 1"
  by (simp add: loop_body_def Let_def)

lemma loop_body_snapshooter [simp]:
  "jet_snapshooter (loop_body edge_cut pass ctx s) =
     snapshooter_update edge_cut (jet_snapshooter s) (pass (cur_iteration s) (p_graph s))"
  by (simp add: loop_body_def Let_def)

lemma loop_body_p_graph [simp]:
  "p_graph (loop_body edge_cut pass ctx s) = pass (cur_iteration s) (p_graph s)"
  by (simp add: loop_body_def Let_def)

lemma loop_body_best_cut:
  "best_cut (loop_body edge_cut pass ctx s) = best_cut s \<or>
   best_cut (loop_body edge_cut pass ctx s) = edge_cut (pass (cur_iteration s) (p_graph s))"
  by (simp add: loop_body_def Let_def)

lemma pass_loop_unfold:
  "pass_loop edge_cut pass ctx mi mf s =
     (if continues mi mf (loop_body edge_cut pass ctx s)
      then pass_loop edge_cut pass ctx mi mf (loop_body edge_cut pass ctx s)
      else loop_body edge_cut pass ctx s)"
  by (rule pass_loop.simps)

text \<open>The loop runs the body some number \<open>N \<ge> 1\<close> of times, and \<open>N\<close> is the first
  number of passes after which the loop condition is false.\<close>

lemma pass_loop_funpow:
  "\<exists>N\<ge>1. pass_loop edge_cut pass ctx mi mf s = ((loop_body edge_cut pass ctx) ^^ N) s \<and>
          \<not> continues mi mf (((loop_body edge_cut pass ctx) ^^ N) s) \<and>
          (\<forall>m. 1 \<le> m \<and> m < N \<longrightarrow> continues mi mf (((loop_body edge_cut pass ctx) ^^ m) s))"
proof (induction edge_cut pass ctx mi mf s rule: pass_loop.induct)
  case (1 edge_cut pass ctx mi mf s)
  let ?body = "loop_body edge_cut pass ctx"
  show ?case
  proof (cases "continues mi mf (?body s)")
    case False
    then have "pass_loop edge_cut pass ctx mi mf s = (?body ^^ 1) s"
      by (simp add: pass_loop_unfold [of _ _ _ _ _ s])
    moreover have "\<not> continues mi mf ((?body ^^ 1) s)" using False by simp
    ultimately show ?thesis by (intro exI [of _ 1]) simp
  next
    case True
    from "1.IH" [OF True] obtain N where N: "1 \<le> N"
      and run: "pass_loop edge_cut pass ctx mi mf (?body s) = (?body ^^ N) (?body s)"
      and stop: "\<not> continues mi mf ((?body ^^ N) (?body s))"
      and before: "\<And>m. 1 \<le> m \<Longrightarrow> m < N \<Longrightarrow> continues mi mf ((?body ^^ m) (?body s))"
      by blast
    have shift: "(?body ^^ Suc m) s = (?body ^^ m) (?body s)" for m
      by (simp add: funpow_swap1)
    have "pass_loop edge_cut pass ctx mi mf s = (?body ^^ Suc N) s"
      using True run by (simp add: pass_loop_unfold [of _ _ _ _ _ s] funpow_swap1)
    moreover have "\<not> continues mi mf ((?body ^^ Suc N) s)"
      using stop unfolding shift .
    moreover have "continues mi mf ((?body ^^ m) s)" if "1 \<le> m" "m < Suc N" for m
    proof (cases m)
      case 0
      with that show ?thesis by simp
    next
      case (Suc m')
      show ?thesis
      proof (cases "m' = 0")
        case True
        with Suc \<open>continues mi mf (?body s)\<close> show ?thesis by simp
      next
        case False
        with Suc that have "1 \<le> m'" "m' < N" by simp_all
        from before [OF this] show ?thesis unfolding Suc shift .
      qed
    qed
    ultimately show ?thesis by (intro exI [of _ "Suc N"]) simp
  qed
qed

lemma funpow_iteration:
  "cur_iteration (((loop_body edge_cut pass ctx) ^^ N) s) = cur_iteration s + int N"
  by (induction N) simp_all

text \<open>The snapshot never gets worse, and after a pass it is at least as good as the
  partition of that pass.\<close>

lemma snapshooter_update_facts:
  assumes "snapshot_ok edge_cut sn"
  shows "snapshot_ok edge_cut (snapshooter_update edge_cut sn p)"
    and "best_partition_cut (snapshooter_update edge_cut sn p) \<le> best_partition_cut sn"
    and "best_partition_cut (snapshooter_update edge_cut sn p) \<le> edge_cut p"
  using assms by (simp_all add: snapshot_ok_def snapshooter_update_def)

lemma funpow_snapshot:
  assumes "snapshot_ok edge_cut (jet_snapshooter s)"
  shows "snapshot_ok edge_cut (jet_snapshooter (((loop_body edge_cut pass ctx) ^^ N) s)) \<and>
         best_partition_cut (jet_snapshooter (((loop_body edge_cut pass ctx) ^^ N) s))
           \<le> best_partition_cut (jet_snapshooter s) \<and>
         (\<forall>m. 1 \<le> m \<and> m \<le> N \<longrightarrow>
            best_partition_cut (jet_snapshooter (((loop_body edge_cut pass ctx) ^^ N) s))
              \<le> edge_cut (p_graph (((loop_body edge_cut pass ctx) ^^ m) s)))"
proof (induction N)
  case 0
  with assms show ?case by simp
next
  case (Suc N)
  let ?t = "((loop_body edge_cut pass ctx) ^^ N) s"
  let ?p = "pass (cur_iteration ?t) (p_graph ?t)"
  from Suc have ok: "snapshot_ok edge_cut (jet_snapshooter ?t)"
    and le: "best_partition_cut (jet_snapshooter ?t) \<le> best_partition_cut (jet_snapshooter s)"
    and old: "\<And>m. 1 \<le> m \<Longrightarrow> m \<le> N \<Longrightarrow>
               best_partition_cut (jet_snapshooter ?t)
                 \<le> edge_cut (p_graph (((loop_body edge_cut pass ctx) ^^ m) s))"
    by simp_all
  note upd = snapshooter_update_facts [OF ok, of ?p]
  have "best_partition_cut (snapshooter_update edge_cut (jet_snapshooter ?t) ?p)
          \<le> edge_cut (p_graph (((loop_body edge_cut pass ctx) ^^ m) s))"
    if "1 \<le> m" "m \<le> Suc N" for m
  proof (cases "m = Suc N")
    case True
    with upd(3) show ?thesis by simp
  next
    case False
    with that have "m \<le> N" by simp
    from old [OF that(1) this] upd(2) show ?thesis by simp
  qed
  with upd le show ?case by simp
qed

text \<open>\<open>best_cut\<close> is the initial cut or the cut of one of the passes, so the snapshot is
  never worse than \<open>best_cut\<close>.\<close>

lemma funpow_best_cut:
  assumes "snapshot_ok edge_cut (jet_snapshooter s)"
    and "best_partition_cut (jet_snapshooter s) \<le> best_cut s"
  shows "best_partition_cut (jet_snapshooter (((loop_body edge_cut pass ctx) ^^ N) s))
           \<le> best_cut (((loop_body edge_cut pass ctx) ^^ N) s)"
proof (induction N)
  case 0
  with assms show ?case by simp
next
  case (Suc N)
  let ?t = "((loop_body edge_cut pass ctx) ^^ N) s"
  let ?p = "pass (cur_iteration ?t) (p_graph ?t)"
  from funpow_snapshot [OF assms(1), where N = N and pass = pass and ctx = ctx]
  have ok: "snapshot_ok edge_cut (jet_snapshooter ?t)" by simp
  note upd = snapshooter_update_facts [OF ok, of ?p]
  from loop_body_best_cut [of edge_cut pass ctx ?t] Suc upd(2,3)
  show ?case by auto
qed


lemma snapshot_ok_init: "snapshot_ok edge_cut (snapshooter_init edge_cut p)"
  by (simp add: snapshot_ok_def snapshooter_init_def)

text \<open>With \<open>fruitless_threshold = 1.0\<close>, \<open>best_cut\<close> is the cut of the snapshot.\<close>

lemma loop_body_strict:
  assumes thr: "fruitless_threshold ctx = Finite 1 0"
    and eq: "best_cut t = best_partition_cut (jet_snapshooter t)"
    and small: "\<bar>best_cut t\<bar> < 2 ^ 63"
    and next_cut: "\<bar>edge_cut (pass (cur_iteration t) (p_graph t))\<bar> < 2 ^ 63"
  shows "best_cut (loop_body edge_cut pass ctx t) =
           best_partition_cut (jet_snapshooter (loop_body edge_cut pass ctx t)) \<and>
         \<bar>best_cut (loop_body edge_cut pass ctx t)\<bar> < 2 ^ 63"
  using eq [symmetric] small next_cut
  by (simp add: loop_body_def Let_def improved_threshold_one [OF thr small]
      snapshooter_update_def)

lemma funpow_best_cut_strict:
  assumes thr: "fruitless_threshold ctx = Finite 1 0"
    and range: "\<forall>q. 0 \<le> edge_cut q \<and> edge_cut q < 2 ^ 63"
    and start: "best_cut s = best_partition_cut (jet_snapshooter s)" "\<bar>best_cut s\<bar> < 2 ^ 63"
  shows "best_cut (((loop_body edge_cut pass ctx) ^^ N) s) =
           best_partition_cut (jet_snapshooter (((loop_body edge_cut pass ctx) ^^ N) s)) \<and>
         \<bar>best_cut (((loop_body edge_cut pass ctx) ^^ N) s)\<bar> < 2 ^ 63"
proof (induction N)
  case 0
  with start show ?case by simp
next
  case (Suc N)
  let ?t = "((loop_body edge_cut pass ctx) ^^ N) s"
  from Suc have eq: "best_cut ?t = best_partition_cut (jet_snapshooter ?t)" by blast
  from Suc have small: "\<bar>best_cut ?t\<bar> < 2 ^ 63" by blast
  from range have "0 \<le> edge_cut (pass (cur_iteration ?t) (p_graph ?t)) \<and>
      edge_cut (pass (cur_iteration ?t) (p_graph ?t)) < 2 ^ 63" ..
  then have "\<bar>edge_cut (pass (cur_iteration ?t) (p_graph ?t))\<bar> < 2 ^ 63" by simp
  note step = loop_body_strict [where edge_cut = edge_cut and pass = pass, OF thr eq small this]
  have "((loop_body edge_cut pass ctx) ^^ Suc N) s = loop_body edge_cut pass ctx ?t" by simp
  with step show ?case by metis
qed

text \<open>
  Claim C1, as the code decides it.  After \<open>initialize\<close>: whenever \<open>refine\<close> returns
  true, the cut of the partition after the rollback is strictly smaller than the cut at
  the start; the cut after the rollback is never larger than the cut at the start; and
  with \<open>fruitless_threshold = 1.0\<close> and cuts that are not negative and within the 64
  bits of an \<open>EdgeWeight\<close>, where every pass that lowers the cut counts as an
  improvement, \<open>refine\<close> returns true if and only if the cut after the rollback is
  strictly smaller than the cut at the start.
\<close>

theorem refine_true_implies_cut_decreased:
  "(fst (refine edge_cut pass ctx p (snapshooter_init edge_cut p)) \<longrightarrow>
      edge_cut (snd (refine edge_cut pass ctx p (snapshooter_init edge_cut p))) < edge_cut p) \<and>
   edge_cut (snd (refine edge_cut pass ctx p (snapshooter_init edge_cut p))) \<le> edge_cut p \<and>
   (fruitless_threshold ctx = Finite 1 0 \<and> (\<forall>q. 0 \<le> edge_cut q \<and> edge_cut q < 2 ^ 63) \<longrightarrow>
      (fst (refine edge_cut pass ctx p (snapshooter_init edge_cut p)) \<longleftrightarrow>
       edge_cut (snd (refine edge_cut pass ctx p (snapshooter_init edge_cut p))) < edge_cut p))"
proof -
  let ?sn = "snapshooter_init edge_cut p"
  let ?s = "refine_entry edge_cut p ?sn"
  let ?e = "refine_exit edge_cut pass ctx p ?sn"
  from pass_loop_funpow [of edge_cut pass ctx "max_num_iterations ctx"
      "max_num_fruitless_iterations ctx" ?s]
  obtain N where run: "?e = ((loop_body edge_cut pass ctx) ^^ N) ?s"
    by (auto simp: refine_exit_def)
  have ok: "snapshot_ok edge_cut (jet_snapshooter ?s)"
    by (simp add: refine_entry_def snapshot_ok_init)
  have le: "best_partition_cut (jet_snapshooter ?s) \<le> best_cut ?s"
    by (simp add: refine_entry_def snapshooter_init_def)
  from funpow_snapshot [OF ok, where N = N and pass = pass and ctx = ctx]
  have a: "best_partition_cut (jet_snapshooter ?e) = edge_cut (best_partition (jet_snapshooter ?e))"
    and b: "best_partition_cut (jet_snapshooter ?e) \<le> edge_cut p"
    unfolding run by (simp_all add: snapshot_ok_def refine_entry_def snapshooter_init_def)
  from funpow_best_cut [OF ok le, where N = N and pass = pass and ctx = ctx]
  have c: "best_partition_cut (jet_snapshooter ?e) \<le> best_cut ?e"
    unfolding run .
  have d: "best_cut ?e = best_partition_cut (jet_snapshooter ?e)"
    if thr: "fruitless_threshold ctx = Finite 1 0"
      and range: "\<forall>q. 0 \<le> edge_cut q \<and> edge_cut q < 2 ^ 63"
  proof -
    have eq: "best_cut ?s = best_partition_cut (jet_snapshooter ?s)"
      by (simp add: refine_entry_def snapshooter_init_def)
    from range have "0 \<le> edge_cut p \<and> edge_cut p < 2 ^ 63" ..
    then have small: "\<bar>best_cut ?s\<bar> < 2 ^ 63" by (simp add: refine_entry_def)
    from funpow_best_cut_strict [OF thr range eq small, where N = N and pass = pass]
    show ?thesis unfolding run by simp
  qed
  from a b c d show ?thesis
    by (auto simp: refine_def Let_def snapshooter_rollback_def)
qed

text \<open>
  Claim C6, as the code decides it.  With a limit of 0 read as
  \<open>std::numeric_limits<int>::max()\<close>, the loop of \<open>refine\<close> always ends; it runs
  \<open>N \<ge> 1\<close> passes, where \<open>N\<close> is the first number of passes after which the iteration
  counter has reached the limit on iterations or the fruitless counter has reached the
  limit on fruitless iterations; and \<open>refine\<close> leaves the partition of the snapshot,
  whose cut is not larger than the initial cut or the cut after any of the passes.
\<close>

theorem refine_loop_exit:
  "\<exists>N\<ge>1.
     refine_exit edge_cut pass ctx p sn =
       ((loop_body edge_cut pass ctx) ^^ N) (refine_entry edge_cut p sn) \<and>
     cur_iteration (refine_exit edge_cut pass ctx p sn) = int N \<and>
     (max_num_iterations ctx \<le> cur_iteration (refine_exit edge_cut pass ctx p sn) \<or>
      max_num_fruitless_iterations ctx
        \<le> cur_fruitless_iteration (refine_exit edge_cut pass ctx p sn)) \<and>
     (\<forall>m. 1 \<le> m \<and> m < N \<longrightarrow>
        cur_iteration (((loop_body edge_cut pass ctx) ^^ m) (refine_entry edge_cut p sn))
          < max_num_iterations ctx \<and>
        cur_fruitless_iteration (((loop_body edge_cut pass ctx) ^^ m) (refine_entry edge_cut p sn))
          < max_num_fruitless_iterations ctx) \<and>
     snd (refine edge_cut pass ctx p sn) =
       snapshooter_rollback (jet_snapshooter (refine_exit edge_cut pass ctx p sn)) \<and>
     (sn = snapshooter_init edge_cut p \<longrightarrow>
        edge_cut (snd (refine edge_cut pass ctx p sn)) \<le> edge_cut p \<and>
        (\<forall>m. 1 \<le> m \<and> m \<le> N \<longrightarrow>
           edge_cut (snd (refine edge_cut pass ctx p sn))
             \<le> edge_cut (p_graph (((loop_body edge_cut pass ctx) ^^ m) (refine_entry edge_cut p sn)))))"
proof -
  let ?s = "refine_entry edge_cut p sn"
  let ?e = "refine_exit edge_cut pass ctx p sn"
  let ?body = "loop_body edge_cut pass ctx"
  from pass_loop_funpow [of edge_cut pass ctx "max_num_iterations ctx"
      "max_num_fruitless_iterations ctx" ?s]
  obtain N where N: "1 \<le> N" and run: "?e = (?body ^^ N) ?s"
    and stop: "\<not> continues (max_num_iterations ctx) (max_num_fruitless_iterations ctx) ?e"
    and before: "\<And>m. 1 \<le> m \<Longrightarrow> m < N \<Longrightarrow>
       continues (max_num_iterations ctx) (max_num_fruitless_iterations ctx) ((?body ^^ m) ?s)"
    by (auto simp: refine_exit_def)
  have it: "cur_iteration ?e = int N"
    unfolding run by (simp add: funpow_iteration refine_entry_def)
  have rb: "snd (refine edge_cut pass ctx p sn) = snapshooter_rollback (jet_snapshooter ?e)"
    by (simp add: refine_def Let_def)
  have best: "edge_cut (snd (refine edge_cut pass ctx p sn)) \<le> edge_cut p \<and>
        (\<forall>m. 1 \<le> m \<and> m \<le> N \<longrightarrow>
           edge_cut (snd (refine edge_cut pass ctx p sn)) \<le> edge_cut (p_graph ((?body ^^ m) ?s)))"
    if sn: "sn = snapshooter_init edge_cut p"
  proof -
    have ok: "snapshot_ok edge_cut (jet_snapshooter ?s)"
      by (simp add: refine_entry_def snapshot_ok_init sn)
    have c0: "best_partition_cut (jet_snapshooter ?s) = edge_cut p"
      by (simp add: refine_entry_def sn snapshooter_init_def)
    note fs = funpow_snapshot [OF ok, where N = N and pass = pass and ctx = ctx,
        folded run, unfolded c0]
    from fs have a: "best_partition_cut (jet_snapshooter ?e) =
                       edge_cut (best_partition (jet_snapshooter ?e))"
      by (simp add: snapshot_ok_def)
    from fs have b: "best_partition_cut (jet_snapshooter ?e) \<le> edge_cut p"
      by blast
    from fs have c: "\<forall>m. 1 \<le> m \<and> m \<le> N \<longrightarrow>
                best_partition_cut (jet_snapshooter ?e) \<le> edge_cut (p_graph ((?body ^^ m) ?s))"
      by blast
    from b c show ?thesis
      unfolding rb snapshooter_rollback_def a [symmetric] by blast
  qed
  from N run it stop before rb best show ?thesis
    by (intro exI [of _ N]) (auto simp: continues_def)
qed

lemmas run_defs =
  refine_def refine_exit_def refine_entry_def max_num_iterations_def
  max_num_fruitless_iterations_def int_max_def loop_body_def continues_def Let_def
  snapshooter_update_def snapshooter_init_def snapshooter_rollback_def
  cut_4_3_def to_partition_1_def improved_def double_of_int_def round_double_exact

lemma run_one_pass_half:
  "refine cut_4_3 to_partition_1 one_pass_half 0 (snapshooter_init cut_4_3 0) = (False, 1)"
  by (simp add: refine_def refine_exit_def Let_def)
     (subst pass_loop.simps, simp add: run_defs one_pass_half_def)+

lemma run_one_pass_strict:
  "refine cut_4_3 to_partition_1 one_pass_strict 0 (snapshooter_init cut_4_3 0) = (True, 1)"
  by (simp add: refine_def refine_exit_def Let_def)
     (subst pass_loop.simps, simp add: run_defs one_pass_strict_def)+

lemma run_unlimited_passes:
  "cur_iteration
     (refine_exit cut_4_3 to_partition_1 unlimited_passes 0 (snapshooter_init cut_4_3 0)) = 2"
  apply (simp add: refine_exit_def)
  apply (subst pass_loop.simps)
  apply (subst pass_loop.simps)
  apply (simp add: run_defs unlimited_passes_def)
  done

theorem refine_true_implies_cut_decreased_witness:
  "fruitless_threshold one_pass_strict = Finite 1 0 \<and>
   (\<forall>q. 0 \<le> cut_4_3 q \<and> cut_4_3 q < 2 ^ 63) \<and>
   fst (refine cut_4_3 to_partition_1 one_pass_strict 0 (snapshooter_init cut_4_3 0)) \<and>
   cut_4_3 (snd (refine cut_4_3 to_partition_1 one_pass_strict 0 (snapshooter_init cut_4_3 0)))
     < cut_4_3 0"
proof -
  have t: "fruitless_threshold one_pass_strict = Finite 1 0" by (simp add: one_pass_strict_def)
  have r: "\<forall>q. 0 \<le> cut_4_3 q \<and> cut_4_3 q < 2 ^ 63" by (simp add: cut_4_3_def)
  from refine_true_implies_cut_decreased [of cut_4_3 to_partition_1 one_pass_strict 0] t r
  show ?thesis by (simp add: run_one_pass_strict)
qed

text \<open>The claim as an equivalence fails: with \<open>fruitless_threshold = 0.5\<close> a pass that
  lowers the cut from 4 to 3 does not count as an improvement (\<open>1.0 > 0.5 * 4.0\<close> is
  false), \<open>refine\<close> returns false, and the partition after the rollback has cut 3.\<close>

theorem refine_false_but_cut_decreased_counterexample:
  "\<not> fst (refine cut_4_3 to_partition_1 one_pass_half 0 (snapshooter_init cut_4_3 0)) \<and>
   cut_4_3 (snd (refine cut_4_3 to_partition_1 one_pass_half 0 (snapshooter_init cut_4_3 0)))
     < cut_4_3 0"
  by (simp add: run_one_pass_half) (simp add: cut_4_3_def)

theorem refine_loop_exit_witness:
  "\<exists>N\<ge>1. N = 2 \<and>
     cur_iteration
       (refine_exit cut_4_3 to_partition_1 unlimited_passes 0 (snapshooter_init cut_4_3 0)) = int N \<and>
     refine_exit cut_4_3 to_partition_1 unlimited_passes 0 (snapshooter_init cut_4_3 0) =
       ((loop_body cut_4_3 to_partition_1 unlimited_passes) ^^ N)
         (refine_entry cut_4_3 0 (snapshooter_init cut_4_3 0))"
proof -
  from refine_loop_exit [of cut_4_3 to_partition_1 unlimited_passes 0 "snapshooter_init cut_4_3 0"]
  obtain N where N: "1 \<le> N"
    and run: "refine_exit cut_4_3 to_partition_1 unlimited_passes 0 (snapshooter_init cut_4_3 0) =
       ((loop_body cut_4_3 to_partition_1 unlimited_passes) ^^ N)
         (refine_entry cut_4_3 0 (snapshooter_init cut_4_3 0))"
    and it: "cur_iteration
       (refine_exit cut_4_3 to_partition_1 unlimited_passes 0 (snapshooter_init cut_4_3 0)) = int N"
    by blast
  from it have "N = 2" by (simp add: run_unlimited_passes)
  with N run it show ?thesis by (intro exI [of _ N]) simp
qed

text \<open>The claim fails for \<open>num_iterations = 0\<close>: after the first pass the iteration
  counter, 1, has reached \<open>num_iterations\<close>, and the loop goes on to a second pass.\<close>

theorem zero_limit_counterexample:
  "spec_stop unlimited_passes
     (loop_body cut_4_3 to_partition_1 unlimited_passes
        (refine_entry cut_4_3 0 (snapshooter_init cut_4_3 0))) \<and>
   cur_iteration
     (refine_exit cut_4_3 to_partition_1 unlimited_passes 0 (snapshooter_init cut_4_3 0)) = 2"
  by (simp add: run_unlimited_passes) (simp add: spec_stop_def refine_entry_def unlimited_passes_def)

section \<open>ConcurrentCircularVector: ordered prefix sums\<close>

lemma prev_mod:
  fixes i L :: nat
  assumes "0 < L"
  shows "(i + (L - 1)) mod L = (if i mod L = 0 then L - 1 else i mod L - 1)"
proof -
  have "(i + (L - 1)) mod L = (i mod L + (L - 1)) mod L"
    by (simp add: mod_add_left_eq)
  also have "\<dots> = (if i mod L = 0 then L - 1 else i mod L - 1)"
  proof (cases "i mod L = 0")
    case True
    with assms show ?thesis by simp
  next
    case False
    define r where "r = i mod L - 1"
    from False have r: "i mod L = Suc r" by (simp add: r_def)
    have "Suc r < L" using assms r [symmetric] by simp
    then have "r < L" by simp
    have "i mod L + (L - 1) = r + L" using assms r by simp
    then have "(i mod L + (L - 1)) mod L = r" using \<open>r < L\<close> by simp
    with False show ?thesis by (simp add: r_def)
  qed
  finally show ?thesis .
qed

lemma replicate_update_same:
  "(replicate L x)[j := y, j := x] = replicate L x"
  by (cases "j < L") (auto simp: list_eq_iff_nth_eq nth_list_update)

lemma ticket_pos:
  fixes L i :: nat
  assumes "i < 2 ^ LENGTH('s) \<or> L dvd 2 ^ LENGTH('s)"
  shows "unat (of_nat i :: 's::len word) mod L = i mod L"
proof -
  have u: "unat (of_nat i :: 's word) = i mod 2 ^ LENGTH('s)" by (simp add: unat_of_nat)
  from assms show ?thesis
  proof
    assume "i < 2 ^ LENGTH('s)"
    then show ?thesis by (simp add: u)
  next
    assume "L dvd 2 ^ LENGTH('s)"
    then show ?thesis unfolding u by (rule mod_mod_cancel)
  qed
qed

lemma fetch_and_update_step:
  fixes c :: "('s::len, 'v::len) concurrent_circular_vector"
  assumes inv: "after_tickets L i tot c" and L: "2 \<le> L"
    and i: "i < 2 ^ LENGTH('s) \<or> L dvd 2 ^ LENGTH('s)"
    and t: "tot \<noteq> kLock" and t': "tot + delta \<noteq> kLock"
  shows "\<exists>c'. fetch_and_update (snd (next_ticket c)) (fst (next_ticket c)) delta = Inr (tot, c') \<and>
               fst (next_ticket c) = of_nat i \<and>
               after_tickets L (Suc i) (tot + delta) c' \<and>
               ccv_buffer c' ! pos_of c' (of_nat i :: 's word) = tot + delta \<and>
               ccv_buffer c' ! prev_pos_of c' (of_nat i :: 's word) = kLock"
proof -
  let ?c1 = "snd (next_ticket c)"
  let ?t = "fst (next_ticket c)"
  let ?p = "(i + (L - 1)) mod L"
  from L have L0: "0 < L" by simp
  have lt: "i mod L < L" "?p < L" using L0 by simp_all
  from inv have cnt: "ccv_counter c = of_nat i"
    and buf: "ccv_buffer c = (replicate L kLock)[?p := tot]"
    by (simp_all add: after_tickets_def)
  from buf have len: "length (ccv_buffer c) = L" by simp
  from buf lt have slot: "ccv_buffer c ! ?p = tot" by simp
  have tk: "?t = of_nat i" by (simp add: next_ticket_def cnt)
  note un = ticket_pos [OF i]
  have buf1: "ccv_buffer ?c1 = ccv_buffer c" by (simp add: next_ticket_def)
  have pos: "pos_of ?c1 ?t = i mod L" by (simp add: pos_of_def tk un buf1 len)
  have prev: "prev_pos_of ?c1 ?t = ?p"
    unfolding prev_mod [OF L0] by (simp add: prev_pos_of_def pos buf1 len)
  have ne: "?p \<noteq> i mod L"
    unfolding prev_mod [OF L0] using L by auto
  let ?c' = "?c1\<lparr>ccv_buffer := (ccv_buffer ?c1)[?p := kLock, i mod L := tot + delta]\<rparr>"
  have run: "fetch_and_update ?c1 ?t delta = Inr (tot, ?c')"
    using t t' slot by (simp add: fetch_and_update_def Let_def pos prev buf1)
  have len': "length (ccv_buffer ?c') = L" by (simp add: buf1 len)
  have pos': "pos_of ?c' (of_nat i :: 's word) = i mod L"
    by (simp add: pos_of_def un buf1 len)
  have prev': "prev_pos_of ?c' (of_nat i :: 's word) = ?p"
    unfolding prev_mod [OF L0] by (simp add: prev_pos_of_def pos_of_def un buf1 len)
  have new: "ccv_buffer ?c' ! (i mod L) = tot + delta"
    using lt by (simp add: buf1 len)
  have old: "ccv_buffer ?c' ! ?p = kLock"
    using lt ne by (simp add: buf1 len nth_list_update)
  have nxt: "(Suc i + (L - 1)) mod L = i mod L" using L0 by simp
  have cnt': "ccv_counter ?c' = of_nat (Suc i)" by (simp add: next_ticket_def cnt)
  have "ccv_buffer ?c' = (replicate L kLock)[?p := tot, ?p := kLock, i mod L := tot + delta]"
    by (simp add: buf1 buf)
  also have "\<dots> = (replicate L kLock)[i mod L := tot + delta]"
    by (simp only: replicate_update_same)
  finally have "ccv_buffer ?c' = (replicate L kLock)[(Suc i + (L - 1)) mod L := tot + delta]"
    by (simp only: nxt)
  with cnt' have inv': "after_tickets L (Suc i) (tot + delta) ?c'"
    by (simp only: after_tickets_def simp_thms)
  have new': "ccv_buffer ?c' ! pos_of ?c' (of_nat i :: 's word) = tot + delta"
    by (simp only: pos' new)
  have old': "ccv_buffer ?c' ! prev_pos_of ?c' (of_nat i :: 's word) = kLock"
    by (simp only: prev' old)
  from run tk inv' new' old' show ?thesis by blast
qed


lemma process_tickets_general:
  fixes c :: "('s::len, 'v::len) concurrent_circular_vector"
  shows "after_tickets L i tot c \<Longrightarrow> 2 \<le> L \<Longrightarrow>
         i + length ds \<le> 2 ^ LENGTH('s) \<or> L dvd 2 ^ LENGTH('s) \<Longrightarrow>
         \<forall>j\<le>length ds. tot + sum_list (take j ds) \<noteq> kLock \<Longrightarrow>
         \<exists>c'. process_tickets c ds =
                 Inr (map (\<lambda>j. tot + sum_list (take j ds)) [0..<length ds], c') \<and>
              after_tickets L (i + length ds) (tot + sum_list ds) c'"
proof (induction ds arbitrary: i tot c)
  case Nil
  then show ?case by simp
next
  case (Cons d ds)
  from Cons.prems(4) have "tot + sum_list (take 0 (d # ds)) \<noteq> kLock" by blast
  then have t: "tot \<noteq> kLock" by simp
  from Cons.prems(4) have "tot + sum_list (take (Suc 0) (d # ds)) \<noteq> kLock" by fastforce
  then have t': "tot + d \<noteq> kLock" by simp
  from Cons.prems(3) have i: "i < 2 ^ LENGTH('s) \<or> L dvd 2 ^ LENGTH('s)" by auto
  from fetch_and_update_step [OF Cons.prems(1,2) i t t']
  obtain c1 where first:
      "fetch_and_update (snd (next_ticket c)) (fst (next_ticket c)) d = Inr (tot, c1)"
    and inv1: "after_tickets L (Suc i) (tot + d) c1"
    by blast
  have rest: "\<forall>j\<le>length ds. tot + d + sum_list (take j ds) \<noteq> kLock"
  proof (intro allI impI)
    fix j assume "j \<le> length ds"
    then have "Suc j \<le> length (d # ds)" by simp
    with Cons.prems(4) have "tot + sum_list (take (Suc j) (d # ds)) \<noteq> kLock" by blast
    then show "tot + d + sum_list (take j ds) \<noteq> kLock" by (simp add: add.assoc)
  qed
  from Cons.prems(3) have len: "Suc i + length ds \<le> 2 ^ LENGTH('s) \<or> L dvd 2 ^ LENGTH('s)"
    by auto
  from Cons.IH [OF inv1 Cons.prems(2) len rest]
  obtain c' where tail:
      "process_tickets c1 ds = Inr (map (\<lambda>j. tot + d + sum_list (take j ds)) [0..<length ds], c')"
    and inv': "after_tickets L (Suc i + length ds) (tot + d + sum_list ds) c'"
    by blast
  have rets: "map (\<lambda>j. tot + sum_list (take j (d # ds))) [0..<length (d # ds)] =
              tot # map (\<lambda>j. tot + d + sum_list (take j ds)) [0..<length ds]"
    by (simp add: upt_conv_Cons map_Suc_upt [symmetric] add.assoc del: upt_Suc)
  from first tail inv' show ?case
    unfolding rets by (simp add: add.assoc)
qed

lemma constructed_buffer:
  fixes sz :: "'s::len word" and c0 :: "('s, 'v::len) concurrent_circular_vector"
  assumes "ConcurrentCircularVector sz = Some c0"
  shows "c0 = \<lparr>ccv_counter = 0, ccv_buffer = replicate (unat sz) kLock @ [0]\<rparr>"
proof -
  from assms have nz: "buffer_size sz \<noteq> 0"
    and c0: "c0 = \<lparr>ccv_counter = 0, ccv_buffer = replicate (buffer_size sz - 1) kLock @ [0]\<rparr>"
    by (auto simp: ConcurrentCircularVector_def split: if_splits)
  have "buffer_size sz = Suc (unat sz)"
  proof (cases "LENGTH('s) < 32")
    case True
    then show ?thesis by (simp add: buffer_size_def)
  next
    case False
    with nz have "1 + sz \<noteq> 0" by (simp add: buffer_size_def add.commute unat_eq_0)
    then have "unat (1 + sz) = Suc (unat sz)" by (rule unatSuc)
    with False show ?thesis by (simp add: buffer_size_def add.commute)
  qed
  with c0 show ?thesis by simp
qed

lemma fresh_after_tickets:
  fixes sz :: "'s::len word" and c0 :: "('s, 'v::len) concurrent_circular_vector"
  assumes "ConcurrentCircularVector sz = Some c0"
  shows "after_tickets (Suc (unat sz)) 0 0 c0"
proof -
  have "replicate n x @ [y] = (replicate (Suc n) x)[n := y]" for n and x y :: "'v word"
    by (induction n) simp_all
  then show ?thesis
    unfolding constructed_buffer [OF assms] after_tickets_def by simp
qed

lemma kLock_is_max: "(x :: 'v::len word) \<le> kLock"
  by (simp add: kLock_def)

lemma process_tickets_append:
  "process_tickets c (ds @ es) =
     (case process_tickets c ds of
        Inl e \<Rightarrow> Inl e
      | Inr (rs, c') \<Rightarrow>
          (case process_tickets c' es of
             Inl e \<Rightarrow> Inl e
           | Inr (rs', c'') \<Rightarrow> Inr (rs @ rs', c'')))"
  by (induction ds arbitrary: c) (auto split: sum.splits)

text \<open>
  Claim C7, as the code decides it.  Take a vector constructed with a size of at least 1
  and hand in the deltas \<open>ds\<close> with successive tickets, in order; let the ticket counter
  not have wrapped around (no more tickets than \<open>Size\<close> has values) or let the length
  \<open>size + 1\<close> of the buffer divide the number of values of \<open>Size\<close>; and let no running
  sum be \<open>kLock\<close> (the assertion of \<open>fetch_and_update\<close>).  Then every call returns, the
  returned values are the sums of the deltas of all earlier tickets (0 for the first), and
  right after the call for the \<open>i\<close>-th ticket its slot holds that sum plus its delta,
  while the previous slot holds \<open>kLock\<close>, the largest value of the value type.
\<close>

theorem fetch_and_update_prefix_sums:
  fixes sz :: "'s::len word" and c0 :: "('s, 'v::len) concurrent_circular_vector"
  assumes new: "ConcurrentCircularVector sz = Some c0" and sz: "sz \<noteq> 0"
    and len: "length ds \<le> 2 ^ LENGTH('s) \<or> Suc (unat sz) dvd 2 ^ LENGTH('s)"
    and no_lock: "\<forall>j\<le>length ds. sum_list (take j ds) \<noteq> kLock"
    and i: "i < length ds"
  shows "(\<exists>c'. process_tickets c0 ds = Inr (map (\<lambda>j. sum_list (take j ds)) [0..<length ds], c')) \<and>
         (\<exists>rs c c'. process_tickets c0 (take i ds) = Inr (rs, c) \<and>
            fst (next_ticket c) = of_nat i \<and>
            fetch_and_update (snd (next_ticket c)) (fst (next_ticket c)) (ds ! i) =
              Inr (sum_list (take i ds), c') \<and>
            ccv_buffer c' ! pos_of c' (of_nat i :: 's word) = sum_list (take i ds) + ds ! i \<and>
            ccv_buffer c' ! prev_pos_of c' (of_nat i :: 's word) = kLock) \<and>
         (\<forall>x :: 'v word. x \<le> kLock)"
proof -
  let ?L = "Suc (unat sz)"
  note inv0 = fresh_after_tickets [OF new]
  from sz have "unat sz \<noteq> 0" by (simp add: unat_eq_0)
  then have L: "2 \<le> ?L" by simp
  from len have len0: "0 + length ds \<le> 2 ^ LENGTH('s) \<or> ?L dvd 2 ^ LENGTH('s)" by simp
  have lock0: "\<forall>j\<le>length ds. 0 + sum_list (take j ds) \<noteq> kLock" using no_lock by simp
  from process_tickets_general [OF inv0 L len0 lock0]
  have all: "\<exists>c'. process_tickets c0 ds =
                     Inr (map (\<lambda>j. sum_list (take j ds)) [0..<length ds], c')"
    by auto
  have pre_len: "0 + length (take i ds) \<le> 2 ^ LENGTH('s) \<or> ?L dvd 2 ^ LENGTH('s)"
    using len i by auto
  have pre_lock: "\<forall>j\<le>length (take i ds). 0 + sum_list (take j (take i ds)) \<noteq> kLock"
  proof (intro allI impI)
    fix j assume "j \<le> length (take i ds)"
    with i have j: "j \<le> i" by simp
    then have "take j (take i ds) = take j ds" by (simp add: min_def)
    moreover from j i have "j \<le> length ds" by simp
    ultimately show "0 + sum_list (take j (take i ds)) \<noteq> kLock" using no_lock by simp
  qed
  from process_tickets_general [OF inv0 L pre_len pre_lock]
  obtain c where run: "process_tickets c0 (take i ds) =
        Inr (map (\<lambda>j. 0 + sum_list (take j (take i ds))) [0..<length (take i ds)], c)"
    and inv: "after_tickets ?L (0 + length (take i ds)) (0 + sum_list (take i ds)) c"
    by blast
  from i have li: "length (take i ds) = i" by simp
  from inv have inv_i: "after_tickets ?L i (sum_list (take i ds)) c"
    unfolding li by simp
  from i len have i_lt: "i < 2 ^ LENGTH('s) \<or> ?L dvd 2 ^ LENGTH('s)" by auto
  from no_lock i have t: "sum_list (take i ds) \<noteq> kLock" by simp
  from i have "Suc i \<le> length ds" by simp
  with no_lock have "sum_list (take (Suc i) ds) \<noteq> kLock" by blast
  with i have t': "sum_list (take i ds) + ds ! i \<noteq> kLock"
    by (simp add: take_Suc_conv_app_nth)
  from fetch_and_update_step [OF inv_i L i_lt t t'] run
  have "\<exists>rs c c'. process_tickets c0 (take i ds) = Inr (rs, c) \<and>
            fst (next_ticket c) = of_nat i \<and>
            fetch_and_update (snd (next_ticket c)) (fst (next_ticket c)) (ds ! i) =
              Inr (sum_list (take i ds), c') \<and>
            ccv_buffer c' ! pos_of c' (of_nat i :: 's word) = sum_list (take i ds) + ds ! i \<and>
            ccv_buffer c' ! prev_pos_of c' (of_nat i :: 's word) = kLock"
    by blast
  with all kLock_is_max show ?thesis by blast
qed

lemma ring3_constructed: "ConcurrentCircularVector (2 :: 8 word) = Some ring3"
proof -
  have b: "buffer_size (2 :: 8 word) = 3" by (simp add: buffer_size_def)
  have r: "replicate 2 x = [x, x]" for x :: "8 word" by (simp add: numeral_2_eq_2)
  have "(3::nat) - 1 = 2" by simp
  then show ?thesis unfolding ConcurrentCircularVector_def ring3_def b by (simp add: r)
qed

lemma ring256_constructed:
  "ConcurrentCircularVector (255 :: 8 word) = Some (ring256 :: (8, 8) concurrent_circular_vector)"
proof -
  have b: "buffer_size (255 :: 8 word) = 256" by (simp add: buffer_size_def)
  have "(256::nat) - 1 = 255" by simp
  then show ?thesis unfolding ConcurrentCircularVector_def ring256_def b by simp
qed

theorem fetch_and_update_prefix_sums_witness:
  "ConcurrentCircularVector (2 :: 8 word) = Some ring3 \<and>
   (\<exists>c'. process_tickets ring3 [3, 4, 5] = Inr ([0, 3, 7], c')) \<and>
   ConcurrentCircularVector (255 :: 8 word) = Some ring256 \<and>
   (\<exists>c'. process_tickets ring256 (replicate 300 0) = Inr (replicate 300 0, c'))"
proof -
  have sz: "(2 :: 8 word) \<noteq> 0" by simp
  have len: "length [3, 4, 5 :: 8 word] \<le> 2 ^ LENGTH(8) \<or>
             Suc (unat (2 :: 8 word)) dvd 2 ^ LENGTH(8)" by simp
  have no_lock: "\<forall>j\<le>length [3, 4, 5 :: 8 word]. sum_list (take j [3, 4, 5 :: 8 word]) \<noteq> kLock"
    by (simp add: take_Cons' kLock_def)
  have i: "(2::nat) < length [3, 4, 5 :: 8 word]" by simp
  have rets: "map (\<lambda>j. sum_list (take j [3, 4, 5 :: 8 word])) [0..<length [3, 4, 5 :: 8 word]] =
              [0, 3, 7]"
    by (simp add: upt_rec)
  have sz': "(255 :: 8 word) \<noteq> 0" by simp
  have len': "length (replicate 300 (0 :: 8 word)) \<le> 2 ^ LENGTH(8) \<or>
              Suc (unat (255 :: 8 word)) dvd 2 ^ LENGTH(8)" by simp
  have zero: "sum_list (take j (replicate 300 (0 :: 8 word))) = 0" for j
    by (simp add: sum_list_replicate)
  have no_lock': "\<forall>j\<le>length (replicate 300 (0 :: 8 word)).
                    sum_list (take j (replicate 300 (0 :: 8 word))) \<noteq> kLock"
    unfolding zero by (simp add: kLock_def)
  have i': "(0::nat) < length (replicate 300 (0 :: 8 word))" by simp
  have rets': "map (\<lambda>j. sum_list (take j (replicate 300 (0 :: 8 word))))
                 [0..<length (replicate 300 (0 :: 8 word))] = replicate 300 0"
    unfolding zero by (simp only: map_replicate_const length_upt length_replicate diff_zero)
  from fetch_and_update_prefix_sums [OF ring3_constructed sz len no_lock i]
       fetch_and_update_prefix_sums [OF ring256_constructed sz' len' no_lock' i']
       ring3_constructed ring256_constructed
  show ?thesis unfolding rets rets' by blast
qed

text \<open>The claim fails once the ticket counter has wrapped around and the length of the
  buffer does not divide the number of tickets before the wrap: with 8-bit tickets and
  a vector of size 2 (three slots), ticket 255 writes slot 0, the next ticket is 0 again
  and waits for slot 2, which holds \<open>kLock\<close> and which no earlier call will fill: the
  257th call never returns.\<close>

theorem counter_wrap_counterexample:
  "ConcurrentCircularVector (2 :: 8 word) = Some ring3 \<and>
   process_tickets ring3 (replicate 257 0) = Inl Spins_Forever"
proof -
  have zero: "sum_list (take j (replicate 256 (0 :: 8 word))) = 0" for j
    by (simp add: sum_list_replicate)
  have len: "0 + length (replicate 256 (0 :: 8 word)) \<le> 2 ^ LENGTH(8) \<or>
             (3::nat) dvd 2 ^ LENGTH(8)" by simp
  have no_lock: "\<forall>j\<le>length (replicate 256 (0 :: 8 word)).
                   0 + sum_list (take j (replicate 256 (0 :: 8 word))) \<noteq> (kLock :: 8 word)"
    unfolding zero by (simp add: kLock_def)
  have inv0: "after_tickets 3 0 0 ring3"
    using fresh_after_tickets [OF ring3_constructed] by simp
  from process_tickets_general [OF inv0 _ len no_lock]
  obtain rs c where run: "process_tickets ring3 (replicate 256 0) = Inr (rs, c)"
    and inv: "after_tickets 3 256 0 c"
    unfolding zero by (auto simp: sum_list_replicate)
  have slot: "(256 + (3 - 1)) mod 3 = (0::nat)" by simp
  have three: "replicate 3 x = [x, x, x]" for x :: "8 word" by (simp add: numeral_3_eq_3)
  from inv have cnt: "ccv_counter c = 0" and buf: "ccv_buffer c = [0, kLock, kLock]"
    unfolding after_tickets_def slot three by simp_all
  have spin: "process_tickets c [0] = Inl Spins_Forever"
    by (simp add: next_ticket_def fetch_and_update_def pos_of_def prev_pos_of_def cnt buf Let_def)
  have "replicate (256 + 1) (0 :: 8 word) = replicate 256 0 @ replicate 1 0"
    by (rule replicate_add)
  then have split: "replicate 257 (0 :: 8 word) = replicate 256 0 @ [0]" by simp
  show ?thesis
    unfolding split process_tickets_append run using ring3_constructed spin by simp
qed

section \<open>Compressed graph: removing and integrating isolated nodes\<close>

lemma map_tail_restore:
  "map_tail (\<lambda>b. b + k) (map_tail (\<lambda>b. b - k) bs) = bs" for k :: "32 word"
  by (cases bs) (simp_all add: map_tail_def comp_def)

lemma unrestrict_restrict:
  "sa_unrestricted_size a = sa_size a \<Longrightarrow> unrestrict (restrict_array a m) = a"
  by (simp add: unrestrict_def restrict_array_def)

lemma unrestrict_fresh: "sa_unrestricted_size a = sa_size a \<Longrightarrow> unrestrict a = a"
  by (simp add: unrestrict_def)

lemma update_total_node_weight_fields [simp]:
  "cg_nodes (update_total_node_weight g) = cg_nodes g"
  "cg_node_weights (update_total_node_weight g) = cg_node_weights g"
  "cg_sorted (update_total_node_weight g) = cg_sorted g"
  "cg_buckets (update_total_node_weight g) = cg_buckets g"
  "cg_number_of_buckets (update_total_node_weight g) = cg_number_of_buckets g"
  by (simp_all add: update_total_node_weight_def)

text \<open>The two weight members after \<open>update_total_node_weight\<close> depend on the two arrays
  only.\<close>

lemma update_total_node_weight_cong:
  assumes "cg_nodes g' = cg_nodes g" "cg_node_weights g' = cg_node_weights g"
  shows "cg_total_node_weight (update_total_node_weight g') =
           cg_total_node_weight (update_total_node_weight g)"
    and "cg_max_node_weight (update_total_node_weight g') =
           cg_max_node_weight (update_total_node_weight g)"
  using assms by (simp_all add: update_total_node_weight_def n_def)

lemma remove_isolated_fields:
  "cg_sorted (remove_isolated g k) = cg_sorted g"
  "cg_buckets (remove_isolated g k) = map_tail (\<lambda>b. b - k) (cg_buckets g)"
  "sa_unrestricted_size (cg_nodes g) = sa_size (cg_nodes g) \<Longrightarrow>
     unrestrict (cg_nodes (remove_isolated g k)) = cg_nodes g"
  "sa_unrestricted_size (cg_node_weights g) = sa_size (cg_node_weights g) \<Longrightarrow>
     unrestrict (cg_node_weights (remove_isolated g k)) = cg_node_weights g"
  "sa_size (cg_nodes (remove_isolated g k)) =
     (if k = 0 then sa_size (cg_nodes g) else unat (n g - k + 1))"
proof -
  have id: "map_tail (\<lambda>b. b) bs = bs" for bs :: "32 word list"
    by (cases bs) (simp_all add: map_tail_def)
  show "cg_sorted (remove_isolated g k) = cg_sorted g"
    by (simp add: remove_isolated_def Let_def)
  show "cg_buckets (remove_isolated g k) = map_tail (\<lambda>b. b - k) (cg_buckets g)"
    by (simp add: remove_isolated_def Let_def id)
  show "unrestrict (cg_nodes (remove_isolated g k)) = cg_nodes g"
    if "sa_unrestricted_size (cg_nodes g) = sa_size (cg_nodes g)"
    using that by (simp add: remove_isolated_def Let_def unrestrict_restrict unrestrict_fresh)
  show "unrestrict (cg_node_weights (remove_isolated g k)) = cg_node_weights g"
    if "sa_unrestricted_size (cg_node_weights g) = sa_size (cg_node_weights g)"
    using that by (simp add: remove_isolated_def Let_def unrestrict_restrict unrestrict_fresh)
  show "sa_size (cg_nodes (remove_isolated g k)) =
          (if k = 0 then sa_size (cg_nodes g) else unat (n g - k + 1))"
    by (simp add: remove_isolated_def Let_def restrict_array_def)
qed

lemma n_remove_isolated: "n (remove_isolated g k) = n g - k"
  by (simp add: n_def remove_isolated_fields(5))

lemma integrate_isolated_fields:
  "cg_nodes (integrate_isolated g) = unrestrict (cg_nodes g)"
  "cg_node_weights (integrate_isolated g) = unrestrict (cg_node_weights g)"
  "cg_total_node_weight (integrate_isolated g) =
     cg_total_node_weight (update_total_node_weight
       (g\<lparr>cg_nodes := unrestrict (cg_nodes g), cg_node_weights := unrestrict (cg_node_weights g)\<rparr>))"
  "cg_max_node_weight (integrate_isolated g) =
     cg_max_node_weight (update_total_node_weight
       (g\<lparr>cg_nodes := unrestrict (cg_nodes g), cg_node_weights := unrestrict (cg_node_weights g)\<rparr>))"
  "cg_buckets (integrate_isolated g) =
     map_tail (\<lambda>b. b + (of_nat (sa_size (unrestrict (cg_nodes g))) - 1 - n g)) (cg_buckets g)"
  by (simp_all add: integrate_isolated_def Let_def n_def)

lemma remove_then_integrate:
  assumes c: "constructed g"
  shows "cg_nodes (integrate_isolated (remove_isolated g k)) = cg_nodes g"
    and "cg_node_weights (integrate_isolated (remove_isolated g k)) = cg_node_weights g"
    and "cg_total_node_weight (integrate_isolated (remove_isolated g k)) = cg_total_node_weight g"
    and "cg_max_node_weight (integrate_isolated (remove_isolated g k)) = cg_max_node_weight g"
    and "cg_buckets (integrate_isolated (remove_isolated g k)) = cg_buckets g"
proof -
  from c have fn: "sa_unrestricted_size (cg_nodes g) = sa_size (cg_nodes g)"
    and fw: "sa_unrestricted_size (cg_node_weights g) = sa_size (cg_node_weights g)"
    and up: "update_total_node_weight g = g"
    by (simp_all add: constructed_def)
  let ?r = "remove_isolated g k"
  note nodes = remove_isolated_fields(3) [OF fn, of k]
  note weights = remove_isolated_fields(4) [OF fw, of k]
  show "cg_nodes (integrate_isolated ?r) = cg_nodes g"
    by (simp add: integrate_isolated_fields nodes)
  show "cg_node_weights (integrate_isolated ?r) = cg_node_weights g"
    by (simp add: integrate_isolated_fields weights)
  let ?g' = "?r\<lparr>cg_nodes := unrestrict (cg_nodes ?r),
                  cg_node_weights := unrestrict (cg_node_weights ?r)\<rparr>"
  have arrays: "cg_nodes ?g' = cg_nodes g" "cg_node_weights ?g' = cg_node_weights g"
    by (simp_all add: nodes weights)
  from update_total_node_weight_cong(1) [OF arrays] up
  show "cg_total_node_weight (integrate_isolated ?r) = cg_total_node_weight g"
    by (simp add: integrate_isolated_fields(3))
  from update_total_node_weight_cong(2) [OF arrays] up
  show "cg_max_node_weight (integrate_isolated ?r) = cg_max_node_weight g"
    by (simp add: integrate_isolated_fields(4))
  have "of_nat (sa_size (unrestrict (cg_nodes ?r))) - 1 = n g"
    by (simp only: nodes n_def)
  then have "of_nat (sa_size (unrestrict (cg_nodes ?r))) - 1 - n ?r = k"
    by (simp only: n_remove_isolated) simp
  then show "cg_buckets (integrate_isolated ?r) = cg_buckets g"
    by (simp add: integrate_isolated_fields(5) remove_isolated_fields(2) map_tail_restore)
qed

text \<open>
  Claim C9.  On a sorted graph in the state the constructor leaves it in, and for
  \<open>k\<close> of its nodes (\<open>k \<le> n()\<close>), \<open>remove_isolated_nodes(k)\<close> followed by
  \<open>integrate_isolated_nodes()\<close> succeeds and restores \<open>n()\<close>, the total node weight, the
  maximum node weight and every entry of the bucket prefix sums.
\<close>

theorem remove_integrate_restores:
  assumes "cg_sorted g" and "constructed g" and "k \<le> n g"
  shows "\<exists>g1 g2. remove_isolated_nodes g k = Some g1 \<and> integrate_isolated_nodes g1 = Some g2 \<and>
           n g2 = n g \<and>
           cg_total_node_weight g2 = cg_total_node_weight g \<and>
           cg_max_node_weight g2 = cg_max_node_weight g \<and>
           cg_buckets g2 = cg_buckets g"
proof -
  let ?g1 = "remove_isolated g k"
  let ?g2 = "integrate_isolated ?g1"
  from assms(1) have r: "remove_isolated_nodes g k = Some ?g1"
    by (simp add: remove_isolated_nodes_def)
  from assms(1) have i: "integrate_isolated_nodes ?g1 = Some ?g2"
    by (simp add: integrate_isolated_nodes_def remove_isolated_fields(1))
  note restored = remove_then_integrate [OF assms(2), of k]
  have "n ?g2 = n g" by (simp add: n_def restored(1))
  with r i restored(3,4,5) show ?thesis by blast
qed

theorem remove_integrate_restores_witness:
  "cg_sorted small_graph \<and> constructed small_graph \<and> 2 \<le> n small_graph \<and>
   n small_graph = 4 \<and> n (remove_isolated small_graph 2) = 2 \<and>
   cg_total_node_weight (remove_isolated small_graph 2) = 4 \<and>
   cg_buckets (remove_isolated small_graph 2) = [0, 0, 2, 2] \<and>
   (\<exists>g1 g2. remove_isolated_nodes small_graph 2 = Some g1 \<and>
      integrate_isolated_nodes g1 = Some g2 \<and>
      n g2 = 4 \<and> cg_total_node_weight g2 = 9 \<and> cg_max_node_weight g2 = 4 \<and>
      cg_buckets g2 = [0, 2, 4, 4])"
proof -
  have s: "cg_sorted small_graph" by (simp add: small_graph_def)
  have c: "constructed small_graph"
    by (simp add: constructed_def small_graph_def StaticArray_def update_total_node_weight_def
        empty_array_def entries_def)
  have v: "n small_graph = 4" "cg_total_node_weight small_graph = 9"
    "cg_max_node_weight small_graph = 4" "cg_buckets small_graph = [0, 2, 4, 4]"
    by (simp_all add: small_graph_def n_def StaticArray_def)
  have r: "n (remove_isolated small_graph 2) = 2"
    "cg_total_node_weight (remove_isolated small_graph 2) = 4"
    "cg_buckets (remove_isolated small_graph 2) = [0, 0, 2, 2]"
    by (simp_all add: n_remove_isolated v remove_isolated_fields(2) map_tail_def)
       (simp add: remove_isolated_def Let_def small_graph_def n_def StaticArray_def
         restrict_array_def empty_array_def update_total_node_weight_def entries_def)
  have k: "2 \<le> n small_graph" unfolding v by simp
  from remove_integrate_restores [OF s c k] s c k r show ?thesis
    unfolding v by simp
qed

section \<open>Move sets: recorded membership and the sets handed out\<close>

lemma conn_edge_keeps [simp]:
  "node_to_move_set (conn_edge env st ev) = node_to_move_set st"
  "seeds (conn_edge env st ev) = seeds st"
  "cur_move_set (conn_edge env st ev) = cur_move_set st"
  "frontier (conn_edge env st ev) = frontier st"
  "cur_weight (conn_edge env st ev) = cur_weight st"
  by (simp_all add: conn_edge_def Let_def)

lemma conn_edges_keep [simp]:
  "node_to_move_set (foldl (conn_edge env) st es) = node_to_move_set st"
  "seeds (foldl (conn_edge env) st es) = seeds st"
  "cur_move_set (foldl (conn_edge env) st es) = cur_move_set st"
  "frontier (foldl (conn_edge env) st es) = frontier st"
  "cur_weight (foldl (conn_edge env) st es) = cur_weight st"
  by (induction es arbitrary: st) simp_all

lemma add_to_move_set_result:
  assumes "add_to_move_set env st u = Inr st'"
  shows "u < length (node_to_move_set st)"
    and "node_to_move_set st' = (node_to_move_set st)[u := cur_move_set st]"
    and "seeds st' = seeds st" and "cur_move_set st' = cur_move_set st"
    and "frontier st' = frontier st"
proof -
  from assms have ok: "\<not> (length (node_to_move_set st) \<le> u \<or> length (move_sets st) \<le> cur_pos st)"
    by (auto simp: add_to_move_set_def Let_def split: if_splits)
  then show "u < length (node_to_move_set st)" by simp
  let ?st1 = "if cur_block st = kInvalidBlockID
              then st\<lparr>cur_block := dg_block (env_graph env) u\<rparr> else st"
  let ?st2 = "?st1\<lparr>cur_weight := cur_weight ?st1 + dg_node_weight (env_graph env) u,
                    node_to_move_set := (node_to_move_set ?st1)[u := cur_move_set ?st1],
                    move_sets := (move_sets ?st1)[cur_pos ?st1 := u],
                    cur_pos := cur_pos ?st1 + 1\<rparr>"
  let ?st3 = "foldl (conn_edge env) ?st2 (dg_neighbors (env_graph env) u)"
  from assms ok have "st' = ?st3 \<or>
      st' = ?st3\<lparr>best_prefix_block := conns_peek_id env (cur_conns ?st3),
                   best_prefix_conn := conns_peek_key env (cur_conns ?st3),
                   best_prefix_pos := cur_pos ?st3\<rparr>"
    unfolding add_to_move_set_def Let_def by (simp split: if_splits)
  then show "node_to_move_set st' = (node_to_move_set st)[u := cur_move_set st]"
    and "seeds st' = seeds st" and "cur_move_set st' = cur_move_set st"
    and "frontier st' = frontier st"
    by auto
qed

lemma push_edge_keeps [simp]:
  "node_to_move_set (push_edge env bu st ev) = node_to_move_set st"
  "seeds (push_edge env bu st ev) = seeds st"
  "cur_move_set (push_edge env bu st ev) = cur_move_set st"
  "cur_weight (push_edge env bu st ev) = cur_weight st"
  by (simp_all add: push_edge_def Let_def)

lemma push_edges_keep [simp]:
  "node_to_move_set (foldl (push_edge env bu) st es) = node_to_move_set st"
  "seeds (foldl (push_edge env bu) st es) = seeds st"
  "cur_move_set (foldl (push_edge env bu) st es) = cur_move_set st"
  "cur_weight (foldl (push_edge env bu) st es) = cur_weight st"
  by (induction es arbitrary: st) simp_all

lemma push_edge_frontier:
  assumes "\<forall>v\<in>fst ` set (frontier st). dg_block (env_graph env) v = bu"
  shows "\<forall>v\<in>fst ` set (frontier (push_edge env bu st ev)). dg_block (env_graph env) v = bu"
  using assms
  by (auto simp: push_edge_def Let_def heap_push_def heap_decrease_priority_def
      split: if_splits)

lemma push_edges_frontier:
  "\<forall>v\<in>fst ` set (frontier st). dg_block (env_graph env) v = bu \<Longrightarrow>
   \<forall>v\<in>fst ` set (frontier (foldl (push_edge env bu) st es)). dg_block (env_graph env) v = bu"
proof (induction es arbitrary: st)
  case Nil
  then show ?case by simp
next
  case (Cons e es)
  from Cons.IH [OF push_edge_frontier [OF Cons.prems, of e]] show ?case
    by simp
qed

lemma valid_peek_member:
  "valid_peek peek \<Longrightarrow> h \<noteq> [] \<Longrightarrow> peek h \<in> fst ` set h"
  by (force simp: valid_peek_def)


lemma heap_remove_ids: "fst ` set (heap_remove h u) \<subseteq> fst ` set h"
  by (auto simp: heap_remove_def)

text \<open>One iteration of the loop of \<open>grow_move_set\<close> keeps the loop invariant.\<close>

lemma grow_iteration:
  assumes peek: "valid_peek (frontier_peek_id env)"
    and inv: "growing env mw st"
    and active: "frontier st \<noteq> []" "cur_weight st < mw"
    and add: "add_to_move_set env (st\<lparr>frontier := heap_remove (frontier st) u\<rparr>) u = Inr st'"
    and u: "u = frontier_peek_id env (frontier st)"
  shows "growing env mw
           (foldl (push_edge env (dg_block (env_graph env) u)) st' (dg_neighbors (env_graph env) u))"
proof -
  let ?g = "env_graph env"
  let ?seed = "last (seeds st)"
  let ?st0 = "st\<lparr>frontier := heap_remove (frontier st) u\<rparr>"
  let ?st'' = "foldl (push_edge env (dg_block ?g u)) st' (dg_neighbors ?g u)"
  from inv have len: "length (node_to_move_set st) = dg_n ?g"
    and cms: "Suc (cur_move_set st) = length (seeds st)"
    and valid: "cur_move_set st \<noteq> kInvalidNodeID"
    and mem: "members_ok env st"
    and fr: "\<forall>v\<in>fst ` set (frontier st). dg_block ?g v = dg_block ?g ?seed"
    using active(2) by (simp_all add: growing_def)
  from valid_peek_member [OF peek active(1)] u have "u \<in> fst ` set (frontier st)" by simp
  with fr have bu: "dg_block ?g u = dg_block ?g ?seed" by blast
  note r = add_to_move_set_result [OF add]
  from r(1) len have un: "u < dg_n ?g" by simp
  have nts: "node_to_move_set st' = (node_to_move_set st)[u := cur_move_set st]"
    and sd: "seeds st' = seeds st" and c: "cur_move_set st' = cur_move_set st"
    and f: "frontier st' = heap_remove (frontier st) u"
    using r by simp_all
  from cms have "seeds st \<noteq> []" by auto
  then have "?seed = seeds st ! (length (seeds st) - 1)" by (rule last_conv_nth)
  with cms have seed: "seeds st ! cur_move_set st = ?seed" by (simp add: cms [symmetric])
  have mem': "members_ok env st'"
    unfolding members_ok_def
  proof (intro allI impI)
    fix w assume w: "w < dg_n ?g" and set: "node_to_move_set st' ! w \<noteq> kInvalidNodeID"
    show "node_to_move_set st' ! w < length (seeds st') \<and>
          dg_block ?g w = dg_block ?g (seeds st' ! (node_to_move_set st' ! w))"
    proof (cases "w = u")
      case True
      with un len cms bu seed show ?thesis by (simp add: nts sd)
    next
      case False
      with set have "node_to_move_set st ! w \<noteq> kInvalidNodeID" by (simp add: nts)
      with mem w have "node_to_move_set st ! w < length (seeds st) \<and>
          dg_block ?g w = dg_block ?g (seeds st ! (node_to_move_set st ! w))"
        by (simp add: members_ok_def)
      with False show ?thesis by (simp add: nts sd)
    qed
  qed
  have "\<forall>v\<in>fst ` set (frontier st'). dg_block ?g v = dg_block ?g u"
  proof
    fix v assume "v \<in> fst ` set (frontier st')"
    with heap_remove_ids [of "frontier st" u] have "v \<in> fst ` set (frontier st)"
      unfolding f by blast
    with fr have "dg_block ?g v = dg_block ?g ?seed" by blast
    then show "dg_block ?g v = dg_block ?g u" by (simp only: bu)
  qed
  from push_edges_frontier [OF this]
  have fr'': "\<forall>v\<in>fst ` set (frontier ?st''). dg_block ?g v = dg_block ?g ?seed"
    by (simp add: bu)
  have keep: "node_to_move_set ?st'' = node_to_move_set st'" "seeds ?st'' = seeds st'"
    "cur_move_set ?st'' = cur_move_set st'"
    by simp_all
  have mem'': "members_ok env ?st''"
    using mem' unfolding members_ok_def keep .
  have l'': "length (node_to_move_set ?st'') = dg_n ?g"
    unfolding keep nts using len by simp
  have c'': "Suc (cur_move_set ?st'') = length (seeds ?st'')"
    unfolding keep sd c using cms .
  have v'': "cur_move_set ?st'' \<noteq> kInvalidNodeID"
    unfolding keep c using valid .
  have f'': "\<forall>v\<in>fst ` set (frontier ?st''). dg_block ?g v = dg_block ?g (last (seeds ?st''))"
    unfolding keep sd using fr'' .
  from l'' c'' v'' mem'' f'' show ?thesis
    unfolding growing_def by blast
qed

lemma grow_loop_invariant:
  assumes peek: "valid_peek (frontier_peek_id env)"
  shows "growing env mw st \<Longrightarrow> grow_loop env mw fuel st = Inr st' \<Longrightarrow>
         growing env mw st' \<and> (frontier st' = [] \<or> mw \<le> cur_weight st')"
proof (induction fuel arbitrary: st)
  case 0
  then show ?case by (auto split: if_splits)
next
  case (Suc fuel)
  show ?case
  proof (cases "frontier st \<noteq> [] \<and> cur_weight st < mw")
    case False
    with Suc.prems show ?thesis by auto
  next
    case True
    let ?u = "frontier_peek_id env (frontier st)"
    let ?st0 = "st\<lparr>frontier := heap_remove (frontier st) ?u\<rparr>"
    from Suc.prems(2) True obtain st1 where
      add: "add_to_move_set env ?st0 ?u = Inr st1" and
      rest: "grow_loop env mw fuel
               (foldl (push_edge env (dg_block (env_graph env) ?u)) st1
                  (dg_neighbors (env_graph env) ?u)) = Inr st'"
      by (auto simp: Let_def split: sum.splits)
    from True have active: "frontier st \<noteq> []" "cur_weight st < mw" by simp_all
    from grow_iteration [OF peek Suc.prems(1) active add refl]
    have "growing env mw (foldl (push_edge env (dg_block (env_graph env) ?u)) st1
                  (dg_neighbors (env_graph env) ?u))" .
    from Suc.IH [OF this rest] show ?thesis .
  qed
qed


text \<open>Taking nodes out of their set keeps membership sound.\<close>

lemma reset_entries:
  "length (foldl (\<lambda>a pos. a[ms ! pos := kInvalidNodeID]) a ps) = length a \<and>
   (\<forall>w. foldl (\<lambda>a pos. a[ms ! pos := kInvalidNodeID]) a ps ! w = a ! w \<or>
        foldl (\<lambda>a pos. a[ms ! pos := kInvalidNodeID]) a ps ! w = kInvalidNodeID)"
proof (induction ps arbitrary: a)
  case Nil
  then show ?case by simp
next
  case (Cons p ps)
  have one: "a[ms ! p := kInvalidNodeID] ! w = a ! w \<or> a[ms ! p := kInvalidNodeID] ! w = kInvalidNodeID"
    for w
    by (cases "w = ms ! p"; cases "ms ! p < length a") (simp_all add: list_update_beyond)
  from Cons.IH [of "a[ms ! p := kInvalidNodeID]"] one show ?case
    by (simp del: foldl_Cons add: foldl_Cons [of _ a p ps]) metis
qed

lemma finish_move_set_invariant:
  assumes inv: "growing env mw st" and stop: "frontier st = [] \<or> mw \<le> cur_weight st"
    and fin: "finish_move_set env st = Inr st'"
  shows "between_sets env mw st' \<and> seeds st' = seeds st"
proof -
  let ?nts = "foldl (\<lambda>a pos. a[move_sets st ! pos := kInvalidNodeID])
                (node_to_move_set st) [best_prefix_pos st..<cur_pos st]"
  from fin have st': "st' = st\<lparr>node_to_move_set := ?nts,
                   move_set_indices :=
                     (move_set_indices st)[cur_move_set st + 1 :=
                        move_set_indices st ! cur_move_set st + best_prefix_pos st],
                   cur_move_set := cur_move_set st + 1,
                   cur_conns := reset_cur_conns env (cur_conns st),
                   cur_block := kInvalidBlockID,
                   cur_block_conn := 0,
                   cur_pos := best_prefix_pos st\<rparr>"
    unfolding finish_move_set_def by (simp split: if_splits)
  have f: "node_to_move_set st' = ?nts" "seeds st' = seeds st"
    "cur_move_set st' = Suc (cur_move_set st)" "frontier st' = frontier st"
    "cur_weight st' = cur_weight st"
    unfolding st' by simp_all
  note re = reset_entries [of "move_sets st" "node_to_move_set st" "[best_prefix_pos st..<cur_pos st]"]
  from inv have len: "length (node_to_move_set st) = dg_n (env_graph env)"
    and cms: "Suc (cur_move_set st) = length (seeds st)"
    and mem: "members_ok env st"
    by (simp_all add: growing_def)
  have mem': "members_ok env st'"
    unfolding members_ok_def f
  proof (intro allI impI)
    fix w assume w: "w < dg_n (env_graph env)" and set: "?nts ! w \<noteq> kInvalidNodeID"
    from re set have "?nts ! w = node_to_move_set st ! w" by blast
    with mem w set show "?nts ! w < length (seeds st) \<and>
        dg_block (env_graph env) w = dg_block (env_graph env) (seeds st ! (?nts ! w))"
      by (simp add: members_ok_def)
  qed
  from re len have l': "length (node_to_move_set st') = dg_n (env_graph env)"
    unfolding f by simp
  from cms have c': "cur_move_set st' = length (seeds st')" unfolding f by simp
  from stop have s': "frontier st' = [] \<or> mw \<le> cur_weight st'" unfolding f .
  from l' c' s' mem' f(2) show ?thesis unfolding between_sets_def by blast
qed

lemma grow_move_set_invariant:
  assumes peek: "valid_peek (frontier_peek_id env)"
    and inv: "between_sets env mw st" and few: "length (seeds st) < kInvalidNodeID"
    and grow: "grow_move_set env fuel seed mw st = Inr st'"
  shows "between_sets env mw st' \<and> seeds st' = seeds st @ [seed]"
proof -
  let ?g = "env_graph env"
  let ?st1 = "st\<lparr>frontier := heap_push (frontier st) seed 0, seeds := seeds st @ [seed]\<rparr>"
  from grow obtain st2 where loop: "grow_loop env mw fuel ?st1 = Inr st2"
    and fin: "finish_move_set env st2 = Inr st'"
    unfolding grow_move_set_def by (auto split: sum.splits)
  from inv have len: "length (node_to_move_set st) = dg_n ?g"
    and cms: "cur_move_set st = length (seeds st)"
    and idle: "frontier st = [] \<or> mw \<le> cur_weight st"
    and mem: "members_ok env st"
    by (simp_all add: between_sets_def)
  have mem1: "members_ok env ?st1"
    unfolding members_ok_def
  proof (intro allI impI)
    fix w assume w: "w < dg_n ?g" and set: "node_to_move_set ?st1 ! w \<noteq> kInvalidNodeID"
    with mem have "node_to_move_set st ! w < length (seeds st) \<and>
        dg_block ?g w = dg_block ?g (seeds st ! (node_to_move_set st ! w))"
      by (simp add: members_ok_def)
    then show "node_to_move_set ?st1 ! w < length (seeds ?st1) \<and>
        dg_block ?g w = dg_block ?g (seeds ?st1 ! (node_to_move_set ?st1 ! w))"
      by (simp add: nth_append)
  qed
  have fr1: "cur_weight ?st1 < mw \<longrightarrow>
        (\<forall>v\<in>fst ` set (frontier ?st1). dg_block ?g v = dg_block ?g (last (seeds ?st1)))"
    using idle by (auto simp: heap_push_def)
  have g1: "growing env mw ?st1"
    unfolding growing_def using len cms few mem1 fr1 by simp
  from grow_loop_invariant [OF peek g1 loop]
  have g2: "growing env mw st2" and stop: "frontier st2 = [] \<or> mw \<le> cur_weight st2"
    by simp_all
  have sd: "seeds st2 = seeds st @ [seed]"
  proof -
    have "grow_loop env mw fuel s = Inr s' \<Longrightarrow> seeds s' = seeds s" for s s'
    proof (induction fuel arbitrary: s)
      case 0
      then show ?case by (auto split: if_splits)
    next
      case (Suc fuel)
      show ?case
      proof (cases "frontier s \<noteq> [] \<and> cur_weight s < mw")
        case False
        with Suc.prems show ?thesis by auto
      next
        case True
        let ?u = "frontier_peek_id env (frontier s)"
        from Suc.prems True obtain s1 where
          add: "add_to_move_set env (s\<lparr>frontier := heap_remove (frontier s) ?u\<rparr>) ?u = Inr s1" and
          rest: "grow_loop env mw fuel
                   (foldl (push_edge env (dg_block ?g ?u)) s1 (dg_neighbors ?g ?u)) = Inr s'"
          by (auto simp: Let_def split: sum.splits)
        from Suc.IH [OF rest] add_to_move_set_result(3) [OF add] show ?thesis by simp
      qed
    qed
    from this [OF loop] show ?thesis by simp
  qed
  from finish_move_set_invariant [OF g2 stop fin] sd show ?thesis by simp
qed


lemma fresh_builder: "between_sets env mw (MoveSetBuilder env) \<and> seeds (MoveSetBuilder env) = []"
  by (simp add: between_sets_def members_ok_def MoveSetBuilder_def)

lemma build_node_Inr:
  assumes "build_node env fuel mw r u = Inr st"
  obtains st0 where "r = Inr st0"
    and "st = st0 \<or> (is_overloaded env u \<and> grow_move_set env fuel u mw st0 = Inr st)"
  using assms
  by (cases r) (auto simp: build_node_def Let_def is_overloaded_def split: if_splits)

lemma build_prefix:
  assumes peek: "valid_peek (frontier_peek_id env)"
    and small: "dg_n (env_graph env) < kInvalidNodeID"
  shows "m \<le> dg_n (env_graph env) \<Longrightarrow>
         foldl (build_node env fuel mw) (Inr (MoveSetBuilder env)) [0..<m] = Inr st \<Longrightarrow>
         between_sets env mw st \<and> length (seeds st) \<le> m \<and>
         (\<forall>s\<in>set (seeds st). is_overloaded env s)"
proof (induction m arbitrary: st)
  case 0
  then show ?case using fresh_builder [of env mw] by simp
next
  case (Suc m)
  let ?r = "foldl (build_node env fuel mw) (Inr (MoveSetBuilder env)) [0..<m]"
  from Suc.prems(2) have step: "build_node env fuel mw ?r m = Inr st" by simp
  then obtain st0 where r: "?r = Inr st0"
    and st: "st = st0 \<or> (is_overloaded env m \<and> grow_move_set env fuel m mw st0 = Inr st)"
    by (rule build_node_Inr)
  from Suc.prems(1) have "m \<le> dg_n (env_graph env)" by simp
  from Suc.IH [OF this r] have inv0: "between_sets env mw st0"
    and few0: "length (seeds st0) \<le> m"
    and over0: "\<forall>s\<in>set (seeds st0). is_overloaded env s"
    by simp_all
  from st show ?case
  proof
    assume "st = st0"
    with inv0 few0 over0 show ?thesis by simp
  next
    assume g: "is_overloaded env m \<and> grow_move_set env fuel m mw st0 = Inr st"
    from few0 Suc.prems(1) small have "length (seeds st0) < kInvalidNodeID" by simp
    moreover from g have "grow_move_set env fuel m mw st0 = Inr st" ..
    ultimately have "between_sets env mw st \<and> seeds st = seeds st0 @ [m]"
      by (rule grow_move_set_invariant [OF peek inv0])
    then have "between_sets env mw st" and "seeds st = seeds st0 @ [m]" by simp_all
    with few0 over0 g show ?thesis by simp
  qed
qed

text \<open>
  What the builder keeps in \<open>_node_to_move_set\<close>.  Whatever \<open>build_greedy_move_sets\<close>
  returns (for any order in which the frontier hands out nodes of equal priority, any
  behaviour of the heap \<open>_cur_conns\<close>, any bound on the weight of a set and any number
  of loop iterations allowed): every seed is a node of an overloaded block, and every
  node that \<open>_node_to_move_set\<close> assigns to a set is in the block of the seed from which
  that set was grown.
\<close>

lemma node_to_move_set_stays_in_block:
  assumes "valid_peek (frontier_peek_id env)"
    and "dg_n (env_graph env) < kInvalidNodeID"
    and "build_greedy_move_sets env fuel max_move_set_weight = Inr (nts, ms, idx)"
  shows "\<exists>st. build env fuel max_move_set_weight (MoveSetBuilder env) = Inr st \<and>
           nts = node_to_move_set st \<and>
           (\<forall>s\<in>set (seeds st). is_overloaded env s) \<and>
           (\<forall>u<dg_n (env_graph env).
              nts ! u \<noteq> kInvalidNodeID \<longrightarrow>
              nts ! u < length (seeds st) \<and>
              dg_block (env_graph env) u = dg_block (env_graph env) (seeds st ! (nts ! u)))"
proof -
  from assms(3) obtain st where
    b: "build env fuel max_move_set_weight (MoveSetBuilder env) = Inr st"
    and n: "nts = node_to_move_set st"
    by (auto simp: build_greedy_move_sets_def finalize_def split: sum.splits)
  from build_prefix [OF assms(1,2) le_refl, of fuel max_move_set_weight st] b
  have "between_sets env max_move_set_weight st" and "\<forall>s\<in>set (seeds st). is_overloaded env s"
    by (simp_all add: build_def)
  with b n show ?thesis
    unfolding between_sets_def members_ok_def by blast
qed

lemma valid_peek_first_max: "valid_peek first_max"
proof -
  have "h \<noteq> [] \<Longrightarrow> \<exists>key. (first_max h, key) \<in> set h \<and> (\<forall>p\<in>set h. snd p \<le> key)" for h
  proof (induction h rule: first_max.induct)
    case 1
    then show ?case by simp
  next
    case (2 p)
    show ?case by (intro exI [of _ "snd p"]) simp
  next
    case (3 p q h)
    show ?case
    proof (cases "\<forall>r\<in>set (q # h). snd r \<le> snd p")
      case True
      then show ?thesis by (intro exI [of _ "snd p"]) auto
    next
      case False
      with 3 obtain key where k: "(first_max (q # h), key) \<in> set (q # h)"
        and m: "\<forall>r\<in>set (q # h). snd r \<le> key"
        by auto
      from False m have "snd p \<le> key" by (meson dual_order.trans linear)
      with False k m show ?thesis by (intro exI [of _ key]) auto
    qed
  qed
  then show ?thesis unfolding valid_peek_def by blast
qed

lemmas builder_evals =
  build_greedy_move_sets_def build_def build_node_def grow_move_set_def
  add_to_move_set_def conn_edge_def push_edge_def finish_move_set_def reset_cur_conns_def
  finalize_def MoveSetBuilder_def small_env_def heap_push_def heap_contains_def heap_key_def
  heap_decrease_priority_def heap_remove_def list_peek_key_def list_decrease_priority_by_def
  kInvalidNodeID_def kInvalidBlockID_def Let_def

lemma upt_2: "[0..<2] = [0, 1]"
  by (simp add: upt_rec)

lemma replicate_4: "replicate 4 x = [x, x, x, x]"
  by (simp add: eval_nat_numeral)

lemma replicate_5: "replicate 5 x = [x, x, x, x, x]"
  by (simp add: eval_nat_numeral)

lemma small_run:
  "build_greedy_move_sets small_env (Suc (Suc (Suc 0))) 2 =
     Inr ([0, 0, kInvalidNodeID, kInvalidNodeID], [0, 1, kInvalidNodeID, kInvalidNodeID], [0, 2, 4])"
  by (simp add: builder_evals upt_4 upt_2 replicate_4 replicate_5)

lemma node_to_move_set_stays_in_block_example:
  "valid_peek (frontier_peek_id small_env) \<and>
   dg_n (env_graph small_env) < kInvalidNodeID \<and>
   build_greedy_move_sets small_env (Suc (Suc (Suc 0))) 2 =
     Inr ([0, 0, kInvalidNodeID, kInvalidNodeID], [0, 1, kInvalidNodeID, kInvalidNodeID], [0, 2, 4]) \<and>
   (\<exists>st. build small_env (Suc (Suc (Suc 0))) 2 (MoveSetBuilder small_env) = Inr st \<and>
      0 < length (seeds st) \<and>
      dg_block (env_graph small_env) 1 = dg_block (env_graph small_env) (seeds st ! 0))"
proof -
  have p: "valid_peek (frontier_peek_id small_env)"
    by (simp add: small_env_def valid_peek_first_max)
  have n: "dg_n (env_graph small_env) < kInvalidNodeID"
    by (simp add: small_env_def kInvalidNodeID_def)
  from node_to_move_set_stays_in_block [OF p n small_run]
  obtain st where b: "build small_env (Suc (Suc (Suc 0))) 2 (MoveSetBuilder small_env) = Inr st"
    and all: "\<forall>u<dg_n (env_graph small_env).
        [0, 0, kInvalidNodeID, kInvalidNodeID] ! u \<noteq> kInvalidNodeID \<longrightarrow>
        [0, 0, kInvalidNodeID, kInvalidNodeID] ! u < length (seeds st) \<and>
        dg_block (env_graph small_env) u =
          dg_block (env_graph small_env) (seeds st ! ([0, 0, kInvalidNodeID, kInvalidNodeID] ! u))"
    by blast
  have "(1::nat) < dg_n (env_graph small_env)" by (simp add: small_env_def)
  with all have "[0, 0, kInvalidNodeID, kInvalidNodeID] ! 1 \<noteq> kInvalidNodeID \<longrightarrow>
        [0, 0, kInvalidNodeID, kInvalidNodeID] ! 1 < length (seeds st) \<and>
        dg_block (env_graph small_env) 1 =
          dg_block (env_graph small_env) (seeds st ! ([0, 0, kInvalidNodeID, kInvalidNodeID] ! 1))"
    by blast
  then have "0 < length (seeds st) \<and>
      dg_block (env_graph small_env) 1 = dg_block (env_graph small_env) (seeds st ! 0)"
    by (simp add: kInvalidNodeID_def)
  with p n small_run b show ?thesis by blast
qed





end
